theory Spec2Isabelle
  imports Complex_Main
begin

section \<open>Python strings and integers\<close>

text \<open>
  The scanner works on address literals, so the string operations of the source are
  modelled over \<open>string\<close>. All inputs are taken to be ASCII text: one \<open>char\<close> is one
  Python character.
\<close>

text \<open>
  The exceptions of the model: the three of the address library and of
  \<open>ThreadPoolExecutor\<close> (all of them \<open>ValueError\<close>s in Python), and whatever a name
  resolver may raise.
\<close>

datatype error = AddressValueError | NetmaskValueError | ValueError | LookupFailure

definition is_digit :: "char \<Rightarrow> bool" where
  "is_digit c = (48 \<le> (of_char c :: nat) \<and> (of_char c :: nat) \<le> 57)"

definition digit_char :: "nat \<Rightarrow> char" where
  "digit_char d = char_of (48 + d)"

definition digit_val :: "char \<Rightarrow> nat" where
  "digit_val c = of_char c - 48"

text \<open>\<open>str(n)\<close> and \<open>f"{n}"\<close> for a non-negative integer, and for any integer.\<close>

fun str_nat :: "nat \<Rightarrow> string" where
  "str_nat n = (if n < 10 then [digit_char n] else str_nat (n div 10) @ [digit_char (n mod 10)])"

declare str_nat.simps [simp del]

definition str_int :: "int \<Rightarrow> string" where
  "str_int i = (if i < 0 then CHR ''-'' # str_nat (nat (- i)) else str_nat (nat i))"

text \<open>The value of a string of decimal digits, most significant digit first.\<close>

definition dec_value :: "string \<Rightarrow> nat" where
  "dec_value s = foldl (\<lambda>acc c. 10 * acc + digit_val c) 0 s"

text \<open>\<open>s.split(c)\<close> for a one-character separator: never empty, \<open>''.split(c) == ['']\<close>.\<close>

fun split_on :: "char \<Rightarrow> string \<Rightarrow> string list" where
  "split_on c [] = [[]]"
| "split_on c (x # xs) =
     (if x = c then [] # split_on c xs
      else (case split_on c xs of w # ws \<Rightarrow> (x # w) # ws | [] \<Rightarrow> [[x]]))"

text \<open>\<open>sep.join(parts)\<close>.\<close>

fun join :: "string \<Rightarrow> string list \<Rightarrow> string" where
  "join sep [] = []"
| "join sep [x] = x"
| "join sep (x # y # ys) = x @ sep @ join sep (y # ys)"

text \<open>
  \<open>s.strip()\<close>: the ASCII characters for which \<open>str.isspace\<close> holds are tab, line feed,
  vertical tab, form feed, carriage return, the separators 28 to 31 and the blank.
\<close>

definition is_space :: "char \<Rightarrow> bool" where
  "is_space c = (let n = (of_char c :: nat) in (9 \<le> n \<and> n \<le> 13) \<or> (28 \<le> n \<and> n \<le> 32))"

definition strip :: "string \<Rightarrow> string" where
  "strip s = rev (dropWhile is_space (rev (dropWhile is_space s)))"

text \<open>
  \<open>int(s)\<close> in base ten: surrounding white space is dropped, one sign is allowed, and
  single underscores may stand between digits. Anything else raises \<open>ValueError\<close>,
  which is \<open>None\<close> here.
\<close>

fun digit_groups_ok :: "string list \<Rightarrow> bool" where
  "digit_groups_ok [] = False"
| "digit_groups_ok (g # gs) = (g \<noteq> [] \<and> list_all is_digit g \<and> (gs = [] \<or> digit_groups_ok gs))"

definition py_int_unsigned :: "string \<Rightarrow> nat option" where
  "py_int_unsigned s =
     (if digit_groups_ok (split_on CHR ''_'' s)
      then Some (dec_value (filter (\<lambda>c. c \<noteq> CHR ''_'') s)) else None)"

definition py_int :: "string \<Rightarrow> int option" where
  "py_int s =
     (case strip s of
        [] \<Rightarrow> None
      | c # cs \<Rightarrow>
          if c = CHR ''-'' then map_option (\<lambda>n. - int n) (py_int_unsigned cs)
          else if c = CHR ''+'' then map_option int (py_int_unsigned cs)
          else map_option int (py_int_unsigned (c # cs)))"

section \<open>The address library\<close>

text \<open>
  \<open>parse_ip_range\<close> rests on Python's \<open>ipaddress\<close> module. Its IPv4 grammar is
  modelled here; an IPv4 address is its value, a natural number below \<open>2 ^ 32\<close>.
  A literal with fewer than two colons is never an IPv6 address (the library asks for
  at least three colon-separated groups), so on colon-free text the library's IPv6
  fallback always fails and the IPv4 reading below is the whole behaviour. Text with
  colons is outside this model.
\<close>

text \<open>\<open>IPv4Address._parse_octet\<close>.\<close>

definition parse_octet :: "string \<Rightarrow> error + nat" where
  "parse_octet octet_str =
     (if octet_str = [] then Inl ValueError
      else if \<not> list_all is_digit octet_str then Inl ValueError
      else if length octet_str > 3 then Inl ValueError
      else if octet_str \<noteq> ''0'' \<and> hd octet_str = CHR ''0'' then Inl ValueError
      else (let octet_int = dec_value octet_str
            in if octet_int > 255 then Inl ValueError else Inr octet_int))"

text \<open>\<open>int.from_bytes(map(_parse_octet, octets), 'big')\<close>: the first failing octet raises.\<close>

fun from_octets :: "nat \<Rightarrow> string list \<Rightarrow> error + nat" where
  "from_octets acc [] = Inr acc"
| "from_octets acc (s # ss) =
     (case parse_octet s of Inl e \<Rightarrow> Inl e | Inr v \<Rightarrow> from_octets (256 * acc + v) ss)"

text \<open>\<open>IPv4Address._ip_int_from_string\<close>: every failure is an \<open>AddressValueError\<close>.\<close>

definition ip_int_from_string :: "string \<Rightarrow> error + nat" where
  "ip_int_from_string ip_str =
     (if ip_str = [] then Inl AddressValueError
      else (let octets = split_on CHR ''.'' ip_str
            in if length octets \<noteq> 4 then Inl AddressValueError
               else (case from_octets 0 octets of
                       Inl e \<Rightarrow> Inl AddressValueError
                     | Inr v \<Rightarrow> Inr v)))"

text \<open>\<open>ipaddress.ip_address(s)\<close> on a string, and \<open>str\<close> of an address.\<close>

definition ip_address :: "string \<Rightarrow> error + nat" where
  "ip_address s =
     (if CHR ''/'' \<in> set s then Inl ValueError
      else (case ip_int_from_string s of Inl e \<Rightarrow> Inl ValueError | Inr v \<Rightarrow> Inr v))"

definition str_ip :: "nat \<Rightarrow> string" where
  "str_ip a =
     join ''.'' (map str_nat
       [a div 16777216 mod 256, a div 65536 mod 256, a div 256 mod 256, a mod 256])"

text \<open>
  The mask after the slash: a prefix length in decimal digits, or a netmask or host
  mask in dotted form (\<open>_make_netmask\<close>, \<open>_prefix_from_prefix_string\<close>,
  \<open>_prefix_from_ip_string\<close>, \<open>_prefix_from_ip_int\<close>, \<open>_count_righthand_zero_bits\<close>).
\<close>

fun trailing_zero_bits :: "nat \<Rightarrow> nat \<Rightarrow> nat" where
  "trailing_zero_bits 0 n = 0"
| "trailing_zero_bits (Suc k) n = (if odd n then 0 else Suc (trailing_zero_bits k (n div 2)))"

definition count_righthand_zero_bits :: "nat \<Rightarrow> nat \<Rightarrow> nat" where
  "count_righthand_zero_bits number bits =
     (if number = 0 then bits else min bits (trailing_zero_bits bits number))"

definition prefix_from_ip_int :: "nat \<Rightarrow> nat option" where
  "prefix_from_ip_int ip_int =
     (let trailing_zeroes = count_righthand_zero_bits ip_int 32;
          prefixlen = 32 - trailing_zeroes;
          leading_ones = ip_int div 2 ^ trailing_zeroes;
          all_ones = 2 ^ prefixlen - 1
      in if leading_ones \<noteq> all_ones then None else Some prefixlen)"

definition prefix_from_prefix_string :: "string \<Rightarrow> nat option" where
  "prefix_from_prefix_string prefixlen_str =
     (if prefixlen_str = [] \<or> \<not> list_all is_digit prefixlen_str then None
      else (let prefixlen = dec_value prefixlen_str
            in if prefixlen \<le> 32 then Some prefixlen else None))"

definition prefix_from_ip_string :: "string \<Rightarrow> nat option" where
  "prefix_from_ip_string ip_str =
     (case ip_int_from_string ip_str of
        Inl e \<Rightarrow> None
      | Inr ip_int \<Rightarrow>
          (case prefix_from_ip_int ip_int of
             Some p \<Rightarrow> Some p
           | None \<Rightarrow> prefix_from_ip_int (4294967295 - ip_int)))"

definition make_netmask :: "string \<Rightarrow> error + nat" where
  "make_netmask arg =
     (case prefix_from_prefix_string arg of
        Some p \<Rightarrow> Inr p
      | None \<Rightarrow>
          (case prefix_from_ip_string arg of
             Some p \<Rightarrow> Inr p
           | None \<Rightarrow> Inl NetmaskValueError))"

text \<open>
  \<open>ipaddress.ip_network(s, strict=False)\<close>: the network address is the given address
  with its host bits cleared, whatever they were.
\<close>

record ipv4_network =
  network_address :: nat
  prefixlen :: nat

definition broadcast_address :: "ipv4_network \<Rightarrow> nat" where
  "broadcast_address net = network_address net + (2 ^ (32 - prefixlen net) - 1)"

definition ip_network :: "string \<Rightarrow> error + ipv4_network" where
  "ip_network address =
     (let parts = split_on CHR ''/'' address
      in if length parts > 2 then Inl ValueError
         else (case ip_int_from_string (hd parts) of
                 Inl e \<Rightarrow> Inl ValueError
               | Inr packed \<Rightarrow>
                   (case (if length parts > 1 then make_netmask (parts ! 1) else Inr 32) of
                      Inl e \<Rightarrow> Inl ValueError
                    | Inr p \<Rightarrow>
                        Inr \<lparr>network_address = packed - packed mod 2 ^ (32 - p),
                             prefixlen = p\<rparr>)))"

text \<open>
  \<open>network.hosts()\<close>: the addresses strictly between the network and the broadcast
  address; both addresses of a /31, the one address of a /32.
\<close>

definition network_hosts :: "ipv4_network \<Rightarrow> nat list" where
  "network_hosts net =
     (if prefixlen net = 31 then [network_address net ..< broadcast_address net + 1]
      else if prefixlen net = 32 then [network_address net]
      else [network_address net + 1 ..< broadcast_address net])"

text \<open>\<open>address in network\<close>.\<close>

definition in_network :: "nat \<Rightarrow> ipv4_network \<Rightarrow> bool" where
  "in_network a net = (network_address net \<le> a \<and> a \<le> broadcast_address net)"

section \<open>The range expander: \<open>parse_ip_range\<close>\<close>

text \<open>
  The loop of the full dotted range: \<open>current += 1\<close> builds a new address and raises
  once the value leaves 32 bits, after the last address was appended.
\<close>

function ip_walk :: "nat \<Rightarrow> nat \<Rightarrow> string list \<Rightarrow> error + string list" where
  "ip_walk current end_addr ip_list =
     (if current \<le> end_addr
      then (if current + 1 \<ge> 4294967296 then Inl AddressValueError
            else ip_walk (current + 1) end_addr (ip_list @ [str_ip current]))
      else Inr ip_list)"
  by pat_completeness auto
termination
  by (relation "measure (\<lambda>(current, end_addr, ip_list). Suc end_addr - current)") auto

declare ip_walk.simps [simp del]

text \<open>
  The body of the \<open>try\<close> block. A range with more than one dash matches no branch and
  leaves the list empty.
\<close>

definition parse_body :: "string \<Rightarrow> error + string list" where
  "parse_body ip_range =
     (if CHR ''/'' \<in> set ip_range then
        (case ip_network ip_range of
           Inl e \<Rightarrow> Inl e
         | Inr network \<Rightarrow> Inr (map str_ip (network_hosts network)))
      else if CHR ''-'' \<in> set ip_range then
        (if count_list ip_range CHR ''-'' = 1 then
           (let parts = split_on CHR ''-'' ip_range;
                start_ip = strip (parts ! 0);
                end_part = strip (parts ! 1)
            in case ip_address start_ip of
                 Inl e \<Rightarrow> Inl e
               | Inr start_addr \<Rightarrow>
                   if CHR ''.'' \<notin> set end_part then
                     (let base_ip = join ''.'' (butlast (split_on CHR ''.'' start_ip))
                      in case py_int (last (split_on CHR ''.'' start_ip)) of
                           None \<Rightarrow> Inl ValueError
                         | Some start_octet \<Rightarrow>
                             (case py_int end_part of
                                None \<Rightarrow> Inl ValueError
                              | Some end_octet \<Rightarrow>
                                  Inr (map (\<lambda>i. base_ip @ ''.'' @ str_int i)
                                         [start_octet .. end_octet])))
                   else
                     (case ip_address end_part of
                        Inl e \<Rightarrow> Inl e
                      | Inr end_addr \<Rightarrow> ip_walk start_addr end_addr []))
         else Inr [])
      else
        (case ip_address ip_range of
           Inl e \<Rightarrow> Inl e
         | Inr ip_addr \<Rightarrow> Inr [str_ip ip_addr]))"

text \<open>Every error of the body leaves \<open>parse_ip_range\<close> as a \<open>ValueError\<close>.\<close>

definition parse_ip_range :: "string \<Rightarrow> error + string list" where
  "parse_ip_range ip_range =
     (case parse_body ip_range of Inl e \<Rightarrow> Inl ValueError | Inr ip_list \<Rightarrow> Inr ip_list)"

text \<open>
  \<open>_enhanced_host_discovery\<close> calls \<open>parse_ip_range\<close> of \<open>utils.network\<close> (the
  inline replacement for a failed import is not modelled) and keeps at most 254
  candidates: \<open>if len(ip_list) > 254: ip_list = ip_list[:254]\<close>.
\<close>

definition candidate_list :: "string \<Rightarrow> error + string list" where
  "candidate_list network_range =
     (case parse_ip_range network_range of
        Inl e \<Rightarrow> Inl e
      | Inr ip_list \<Rightarrow> Inr (if length ip_list > 254 then take 254 ip_list else ip_list))"

text \<open>
  An address literal \<open>a.b.c.d\<close> built from its four numbers, and the value of that
  address.
\<close>

definition dotted :: "nat \<Rightarrow> nat \<Rightarrow> nat \<Rightarrow> nat \<Rightarrow> string" where
  "dotted a b c d = join ''.'' (map str_nat [a, b, c, d])"

definition ip_value :: "nat \<Rightarrow> nat \<Rightarrow> nat \<Rightarrow> nat \<Rightarrow> nat" where
  "ip_value a b c d = ((a * 256 + b) * 256 + c) * 256 + d"

section \<open>The scanner: data\<close>

record service_info =
  name :: string
  port :: nat
  protocol :: string
  description :: string
  access_method :: string

text \<open>
  A discovered host is the dictionary \<open>{"ip", "mac", "vendor"}\<close>; a \<open>ScanResult\<close> has
  the same three fields and four more.
\<close>

record host =
  ip :: string
  mac :: string
  vendor :: string

record scan_result = host +
  hostname :: string
  services :: "service_info list"
  response_time :: rat
  is_alive :: bool

text \<open>
  What the scanner does to the outside world is kept as a trace of events: the
  progress reports (the message texts are translated by gettext, so a message is kept
  by its kind and its numbers) and every probe handed to a worker or a system tool.
\<close>

datatype message =
    ScanningForLiveHosts | DiscoveringHosts | PingScanning nat | PingScan nat nat nat
  | CheckingArpTable | TcpPortProbe | GettingMacAddresses | FoundHosts nat | NoHostsFound
  | ResolvingHostnames | Resolved nat nat | ScanningServices | StartingPortScan nat int
  | Scanned nat nat | FinalizingResults | ScanCompleted | ScanFailed error

datatype event =
    Progress message rat
  | PingProbe string
  | ArpRead
  | TcpProbe string nat
  | HostnameLookup string
  | PortProbe string service_info
  | OuiLookup string

datatype udp_outcome = UdpReply | UdpTimeout | UdpRecvError | UdpSendError

text \<open>
  The surroundings of one scan: the configuration, the network as the probes see it,
  the order in which the workers of each pool finish (a rank for each submitted
  position; \<open>as_completed\<close> yields by rank), and the moment of cancellation.
  \<open>cancel_at = Some k\<close> says that \<open>stop_scan\<close> was called after the scan's \<open>k\<close>-th
  read of \<open>_stop_scanning\<close> and before the next one: reads \<open>0 .. k - 1\<close> see
  \<open>False\<close>, every later read sees \<open>True\<close>. \<open>None\<close>: never called.
\<close>

record env =
  discovery_threads :: int
  thread_count :: int
  services_to_scan :: "service_info list"
  cancel_at :: "nat option"
  ping_reply :: "string \<Rightarrow> bool"
  ping_order :: "nat \<Rightarrow> nat \<Rightarrow> nat"
  arp_table :: "(string \<times> string) list"
  tcp_ping_connect :: "string \<Rightarrow> nat \<Rightarrow> int option"
  resolve_hostname :: "string \<Rightarrow> error + string"
  hostname_order :: "nat \<Rightarrow> nat"
  port_connect :: "string \<Rightarrow> nat \<Rightarrow> int option"
  udp_probe :: "string \<Rightarrow> nat \<Rightarrow> udp_outcome"
  port_order :: "nat \<Rightarrow> nat"
  oui_isfile :: bool
  oui_lines :: "string list option"

text \<open>The scanner object: the caches that outlive a scan, the trace, the flag reads.\<close>

record scanner =
  stop_checks :: nat
  trace :: "event list"
  hostname_cache :: "string \<Rightarrow> string option"
  vendor_cache :: "string \<Rightarrow> string option"
  ieee_oui_available :: "bool option"
  oui_database :: "(string \<Rightarrow> string option) option"

definition emit :: "event \<Rightarrow> scanner \<Rightarrow> scanner" where
  "emit e s = s\<lparr>trace := trace s @ [e]\<rparr>"

definition update_progress :: "message \<Rightarrow> rat \<Rightarrow> scanner \<Rightarrow> scanner" where
  "update_progress m pct s = emit (Progress m pct) s"

text \<open>One read of \<open>self._stop_scanning\<close> by the scanning thread.\<close>

definition stop_scanning :: "env \<Rightarrow> scanner \<Rightarrow> bool \<times> scanner" where
  "stop_scanning e s =
     ((case cancel_at e of None \<Rightarrow> False | Some k \<Rightarrow> k \<le> stop_checks s),
      s\<lparr>stop_checks := Suc (stop_checks s)\<rparr>)"

text \<open>\<open>range(0, n, step)\<close> and \<open>concurrent.futures.as_completed\<close>.\<close>

definition range_step :: "nat \<Rightarrow> nat \<Rightarrow> nat list" where
  "range_step n step = map (\<lambda>k. k * step) [0 ..< (n + step - 1) div step]"

definition as_completed :: "(nat \<Rightarrow> nat) \<Rightarrow> 'a list \<Rightarrow> 'a list" where
  "as_completed rank xs = map snd (sort_key (\<lambda>p. rank (fst p)) (zip [0 ..< length xs] xs))"

section \<open>The vendor resolver\<close>

text \<open>\<open>str.upper\<close> and \<open>str.lower\<close> on ASCII text.\<close>

definition upper :: "string \<Rightarrow> string" where
  "upper s = map (\<lambda>c. case map_of (zip ''abcdefghijklmnopqrstuvwxyz''
                                         ''ABCDEFGHIJKLMNOPQRSTUVWXYZ'') c of
                        None \<Rightarrow> c | Some u \<Rightarrow> u) s"

definition lower :: "string \<Rightarrow> string" where
  "lower s = map (\<lambda>c. case map_of (zip ''ABCDEFGHIJKLMNOPQRSTUVWXYZ''
                                         ''abcdefghijklmnopqrstuvwxyz'') c of
                        None \<Rightarrow> c | Some l \<Rightarrow> l) s"

text \<open>\<open>mac.replace(":", "").replace("-", "").upper()\<close>.\<close>

definition normalize_mac :: "string \<Rightarrow> string" where
  "normalize_mac m = upper (filter (\<lambda>c. c \<noteq> CHR ''-'') (filter (\<lambda>c. c \<noteq> CHR '':'') m))"

text \<open>
  \<open>_load_ieee_oui_file\<close>, one line: blank lines and comments are skipped, the line
  is split at its first run of white space, and the first six characters of a
  hexadecimal first field key the vendor name.
\<close>

definition parse_oui_line :: "string \<Rightarrow> (string \<times> string) option" where
  "parse_oui_line raw =
     (let line = strip raw
      in if line = [] \<or> hd line = CHR ''#'' then None
         else (let oui_hex = takeWhile (\<lambda>c. \<not> is_space c) line;
                   vendor_name = strip (dropWhile is_space (dropWhile (\<lambda>c. \<not> is_space c) line))
               in if vendor_name = [] then None
                  else if length oui_hex \<ge> 6 \<and>
                          list_all (\<lambda>c. c \<in> set ''0123456789ABCDEF'') (upper oui_hex)
                       then Some (take 6 (upper oui_hex), vendor_name)
                       else None))"

fun load_lines :: "string list \<Rightarrow> (string \<Rightarrow> string option) \<Rightarrow> (string \<Rightarrow> string option)" where
  "load_lines [] db = db"
| "load_lines (l # ls) db =
     (case parse_oui_line l of
        None \<Rightarrow> load_lines ls db
      | Some (k, v) \<Rightarrow> load_lines ls (db(k \<mapsto> v)))"

text \<open>A file that cannot be read leaves the empty table.\<close>

definition load_ieee_oui_file :: "env \<Rightarrow> scanner \<Rightarrow> scanner" where
  "load_ieee_oui_file e s =
     (case oui_lines e of
        None \<Rightarrow> s\<lparr>oui_database := Some Map.empty\<rparr>
      | Some ls \<Rightarrow> s\<lparr>oui_database := Some (load_lines ls Map.empty)\<rparr>)"

text \<open>
  \<open>_get_vendor_ieee_oui\<close>: the lookup behind the cache. Each call leaves an
  \<open>OuiLookup\<close> event. The file's presence and its table are each found out once and
  kept on the object.
\<close>

definition get_vendor_ieee_oui :: "env \<Rightarrow> string \<Rightarrow> scanner \<Rightarrow> string \<times> scanner" where
  "get_vendor_ieee_oui e m s0 =
     (let s = emit (OuiLookup m) s0;
          s1 = (case ieee_oui_available s of
                  None \<Rightarrow> s\<lparr>ieee_oui_available := Some (oui_isfile e)\<rparr>
                | Some b \<Rightarrow> s)
      in if ieee_oui_available s1 \<noteq> Some True then (''Unknown'', s1)
         else (let oui = take 6 (normalize_mac m);
                   s2 = (case oui_database s1 of None \<Rightarrow> load_ieee_oui_file e s1 | Some db \<Rightarrow> s1)
               in case oui_database s2 of
                    None \<Rightarrow> (''Unknown'', s2)
                  | Some db \<Rightarrow> (case db oui of None \<Rightarrow> (''Unknown'', s2) | Some v \<Rightarrow> (v, s2))))"

text \<open>\<open>_get_vendor\<close>: the cache is keyed by the normalized address.\<close>

definition get_vendor :: "env \<Rightarrow> string \<Rightarrow> scanner \<Rightarrow> string \<times> scanner" where
  "get_vendor e m s =
     (let normalized_mac = normalize_mac m
      in case vendor_cache s normalized_mac of
           Some v \<Rightarrow> (v, s)
         | None \<Rightarrow>
             (case get_vendor_ieee_oui e m s of
                (v, s1) \<Rightarrow>
                  if v \<noteq> [] \<and> v \<noteq> ''Unknown''
                  then (v, s1\<lparr>vendor_cache := (vendor_cache s1)(normalized_mac \<mapsto> v)\<rparr>)
                  else (v, s1\<lparr>vendor_cache := (vendor_cache s1)(normalized_mac \<mapsto> v)\<rparr>)))"

section \<open>Host discovery\<close>

text \<open>
  The progress reports of a batch carry Python floats; the model computes the same
  expressions over the rationals.
\<close>

text \<open>
  The inner loop of a ping batch: the futures come in completion order, the flag is
  read before each result is taken, and a host that answered is appended to
  \<open>alive_hosts\<close> and added to \<open>discovered_ips\<close>. \<open>_ping_host\<close> catches everything
  and answers \<open>(ip, success)\<close>.
\<close>

fun ping_collect ::
  "env \<Rightarrow> string list \<Rightarrow> string list \<times> string set \<Rightarrow> scanner
     \<Rightarrow> (string list \<times> string set) \<times> scanner" where
  "ping_collect e [] acc s = (acc, s)"
| "ping_collect e (x # rest) acc s =
     (case stop_scanning e s of
        (stop, s1) \<Rightarrow>
          if stop then (acc, s1)
          else if ping_reply e x
               then ping_collect e rest (fst acc @ [x], insert x (snd acc)) s1
               else ping_collect e rest acc s1)"

text \<open>
  The loop over the batches of 100. \<open>ThreadPoolExecutor\<close> raises \<open>ValueError\<close> for
  \<open>max_workers \<le> 0\<close>. Every ping of a batch is submitted before the first result
  is taken.
\<close>

fun ping_batches ::
  "env \<Rightarrow> string list \<Rightarrow> nat list \<Rightarrow> string list \<times> string set \<Rightarrow> scanner
     \<Rightarrow> (error + string list \<times> string set) \<times> scanner" where
  "ping_batches e ip_list [] acc s = (Inr acc, s)"
| "ping_batches e ip_list (batch_start # later) acc s =
     (case stop_scanning e s of
        (stop, s1) \<Rightarrow>
          if stop then (Inr acc, s1)
          else (let batch_ips = take 100 (drop batch_start ip_list)
                in if min (min (discovery_threads e) 25) (int (length batch_ips)) \<le> 0
                   then (Inl ValueError, s1)
                   else (case ping_collect e (as_completed (ping_order e batch_start) batch_ips) acc
                                (s1\<lparr>trace := trace s1 @ map PingProbe batch_ips\<rparr>) of
                           (acc', s2) \<Rightarrow>
                             (let completed = min (batch_start + 100) (length ip_list);
                                  progress = 15 + (of_nat completed / of_nat (length ip_list)) * 10
                              in ping_batches e ip_list later acc'
                                   (update_progress
                                      (PingScan completed (length ip_list) (length (fst acc')))
                                      progress s2)))))"

text \<open>
  \<open>_is_in_network\<close>: any failure to read the range as a network, or the address as
  an address, answers \<open>False\<close>.
\<close>

definition is_in_network :: "string \<Rightarrow> string \<Rightarrow> bool" where
  "is_in_network x network_range =
     (case ip_network network_range of
        Inl err \<Rightarrow> False
      | Inr network \<Rightarrow>
          (case ip_address x of Inl err \<Rightarrow> False | Inr a \<Rightarrow> in_network a network))"

text \<open>The loop over the keys of the neighbour table.\<close>

fun arp_collect :: "string \<Rightarrow> string list \<Rightarrow> string list \<times> string set \<Rightarrow> string list \<times> string set" where
  "arp_collect network_range [] acc = acc"
| "arp_collect network_range (x # rest) acc =
     (if x \<notin> snd acc \<and> is_in_network x network_range
      then arp_collect network_range rest (fst acc @ [x], insert x (snd acc))
      else arp_collect network_range rest acc)"

text \<open>
  \<open>_tcp_ping\<close>: connected (0) or refused (111) means a live host; an exception, or no
  answer within the two seconds the scanning thread waits for the future, is \<open>None\<close>.
\<close>

definition tcp_ping :: "env \<Rightarrow> string \<Rightarrow> nat \<Rightarrow> bool" where
  "tcp_ping e x p = (case tcp_ping_connect e x p of None \<Rightarrow> False | Some r \<Rightarrow> r = 0 \<or> r = 111)"

definition test_ports :: "nat list" where
  "test_ports = [22, 80, 443, 445, 3389]"

text \<open>The loop over \<open>port_futures\<close>, in submission order; the third set is \<open>found_in_probe\<close>.\<close>

fun tcp_collect ::
  "env \<Rightarrow> (string \<times> nat) list \<Rightarrow> (string list \<times> string set) \<times> string set \<Rightarrow> scanner
     \<Rightarrow> (string list \<times> string set) \<times> scanner" where
  "tcp_collect e [] st s = (fst st, s)"
| "tcp_collect e (f # rest) st s =
     (case stop_scanning e s of
        (stop, s1) \<Rightarrow>
          if stop then (fst st, s1)
          else if tcp_ping e (fst f) (snd f)
                  \<and> fst f \<notin> snd (fst st) \<and> fst f \<notin> snd st
               then tcp_collect e rest
                      ((fst (fst st) @ [fst f], insert (fst f) (snd (fst st))), insert (fst f) (snd st)) s1
               else tcp_collect e rest st s1)"

definition tcp_probe ::
  "env \<Rightarrow> string list \<Rightarrow> string list \<times> string set \<Rightarrow> scanner
     \<Rightarrow> (string list \<times> string set) \<times> scanner" where
  "tcp_probe e ip_list acc s =
     (let remaining_ips = filter (\<lambda>x. x \<notin> snd acc) ip_list
      in if remaining_ips = [] then (acc, s)
         else (let max_probe_ips = min 50 (length remaining_ips);
                   probe_ips = take max_probe_ips remaining_ips;
                   port_futures = concat (map (\<lambda>x. map (\<lambda>p. (x, p)) test_ports) probe_ips)
               in tcp_collect e port_futures (acc, {})
                    (s\<lparr>trace := trace s @ map (\<lambda>f. TcpProbe (fst f) (snd f)) port_futures\<rparr>)))"

text \<open>The last loop: one dictionary per alive host, until the flag is seen.\<close>

fun build_hosts :: "env \<Rightarrow> string list \<Rightarrow> host list \<Rightarrow> scanner \<Rightarrow> host list \<times> scanner" where
  "build_hosts e [] hosts s = (hosts, s)"
| "build_hosts e (x # rest) hosts s =
     (case stop_scanning e s of
        (stop, s1) \<Rightarrow>
          if stop then (hosts, s1)
          else (let m = (case map_of (arp_table e) x of None \<Rightarrow> [] | Some a \<Rightarrow> a)
                in case (if m \<noteq> [] then get_vendor e m s1 else (''Unknown'', s1)) of
                     (v, s2) \<Rightarrow>
                       build_hosts e rest (hosts @ [\<lparr>ip = x, mac = m, vendor = v\<rparr>]) s2))"

text \<open>
  The three probing methods in turn: the ping sweep, the neighbour table, the TCP
  probe. The result is \<open>alive_hosts\<close> with \<open>discovered_ips\<close>.
\<close>

definition find_alive ::
  "env \<Rightarrow> string \<Rightarrow> scanner \<Rightarrow> (error + string list \<times> string set) \<times> scanner" where
  "find_alive e network_range s =
     (case candidate_list network_range of
        Inl err \<Rightarrow> (Inl err, s)
      | Inr ip_list \<Rightarrow>
          (case ping_batches e ip_list (range_step (length ip_list) 100) ([], {})
                  (update_progress (PingScanning (length ip_list)) 15 s) of
             (Inl err, s1) \<Rightarrow> (Inl err, s1)
           | (Inr acc, s1) \<Rightarrow>
               (let s2 = emit ArpRead (update_progress CheckingArpTable 26 s1);
                    acc2 = arp_collect network_range (map fst (arp_table e)) acc
                in (case tcp_probe e ip_list acc2 (update_progress TcpPortProbe 28 s2) of
                      (acc3, s3) \<Rightarrow> (Inr acc3, s3)))))"

text \<open>\<open>_enhanced_host_discovery\<close>: whatever is raised inside ends as the empty list.\<close>

definition enhanced_host_discovery :: "env \<Rightarrow> string \<Rightarrow> scanner \<Rightarrow> host list \<times> scanner" where
  "enhanced_host_discovery e network_range s =
     (case find_alive e network_range s of
        (Inl err, s1) \<Rightarrow> ([], s1)
      | (Inr acc, s1) \<Rightarrow>
          (case build_hosts e (fst acc) [] (update_progress GettingMacAddresses 32 s1) of
             (hosts, s2) \<Rightarrow> (hosts, update_progress (FoundHosts (length hosts)) 35 s2)))"

definition discover_hosts :: "env \<Rightarrow> string \<Rightarrow> scanner \<Rightarrow> host list \<times> scanner" where
  "discover_hosts e network_range s =
     enhanced_host_discovery e network_range (update_progress DiscoveringHosts 10 s)"

section \<open>Hostnames\<close>

text \<open>
  \<open>_get_hostname\<close>: a cached name is returned at once. Otherwise the resolvers run
  (avahi, then reverse DNS; \<open>resolve_hostname\<close> stands for their joint outcome), and
  every path that returns stores the name it returns in the cache; a path that raises
  stores nothing.
\<close>

definition get_hostname :: "env \<Rightarrow> string \<Rightarrow> scanner \<Rightarrow> (error + string) \<times> scanner" where
  "get_hostname e x s =
     (case hostname_cache s x of
        Some h \<Rightarrow> (Inr h, s)
      | None \<Rightarrow>
          (case resolve_hostname e x of
             Inl err \<Rightarrow> (Inl err, emit (HostnameLookup x) s)
           | Inr h \<Rightarrow>
               (Inr h, (emit (HostnameLookup x) s)\<lparr>hostname_cache := (hostname_cache s)(x \<mapsto> h)\<rparr>)))"

definition startswith :: "string \<Rightarrow> string \<Rightarrow> bool" where
  "startswith s p = (take (length p) s = p)"

definition endswith :: "string \<Rightarrow> string \<Rightarrow> bool" where
  "endswith s p = (length p \<le> length s \<and> drop (length s - length p) s = p)"

text \<open>\<open>t in s\<close> for strings.\<close>

definition contains :: "string \<Rightarrow> string \<Rightarrow> bool" where
  "contains s t = list_ex (\<lambda>i. take (length t) (drop i s) = t) [0 ..< Suc (length s)]"

text \<open>\<open>any(port in service_ports for port in ps)\<close>.\<close>

definition any_port :: "nat list \<Rightarrow> nat list \<Rightarrow> bool" where
  "any_port service_ports ps = list_ex (\<lambda>p. p \<in> set service_ports) ps"

text \<open>The cascade of \<open>_get_device_type_hint\<close> below its hostname lookup.\<close>

definition strong_server_indicators :: "nat list \<Rightarrow> nat" where
  "strong_server_indicators service_ports =
     (if any_port service_ports [80, 443] \<and> length service_ports \<ge> 5 then 1 else 0)
   + (if 22 \<in> set service_ports \<and> length service_ports \<ge> 5 then 1 else 0)
   + (if any_port service_ports [25, 110, 143, 465, 993, 995] then 1 else 0)
   + (if any_port service_ports [88, 389, 636] then 1 else 0)"

definition classify_device :: "bool \<Rightarrow> string \<Rightarrow> nat list \<Rightarrow> string" where
  "classify_device is_likely_gateway hn service_ports =
     (let gateway_hostnames =
            list_ex (\<lambda>t. contains hn t) [''gateway'', ''router'', ''gw'', ''rt'', ''firewall'', ''fw''];
          has_web_interface = any_port service_ports [80, 443];
          has_multiple_network_services =
            (length (filter (\<lambda>p. p \<in> set [53, 67, 123, 161]) service_ports) \<ge> 2);
          db_ports = [3306, 5432, 27017, 6379];
          db_services = filter (\<lambda>p. p \<in> set db_ports) service_ports;
          other_services = filter (\<lambda>p. p \<notin> set (db_ports @ [22, 80, 443])) service_ports;
          mail_services = filter (\<lambda>p. p \<in> set [25, 110, 143, 465, 993, 995]) service_ports;
          dev_services = filter (\<lambda>p. p \<in> set [3000, 3001, 5000, 8000, 8001]) service_ports
      in if (is_likely_gateway \<and> has_web_interface)
            \<or> (gateway_hostnames \<and> has_web_interface \<and> has_multiple_network_services)
         then ''Router''
         else if any_port service_ports [631, 9100, 515] then ''Printer''
         else if db_services \<noteq> [] \<and> length other_services \<le> 1 \<and> length db_services \<ge> 1
         then ''Database Server''
         else if length mail_services \<ge> 2 then ''Mail Server''
         else if any_port service_ports [5000, 5001, 2049, 548] then ''NAS''
         else if any_port service_ports [8008, 8009, 7000, 32469, 1900] then ''Media Device''
         else if any_port service_ports [554, 8554, 1935] then ''Camera''
         else if dev_services \<noteq> [] \<and> length service_ports \<le> 3 then ''Dev Server''
         else if strong_server_indicators service_ports \<ge> 2 \<and> 3389 \<in> set service_ports
         then ''Windows Server''
         else if strong_server_indicators service_ports \<ge> 2 \<and> 22 \<in> set service_ports
         then ''Linux Server''
         else if strong_server_indicators service_ports \<ge> 2 \<and> any_port service_ports [80, 443]
         then ''Web Server''
         else [])"

text \<open>
  \<open>_get_device_type_hint\<close> asks \<open>_get_hostname\<close> again, outside any \<open>try\<close>: what
  that call raises leaves this function.
\<close>

definition get_device_type_hint ::
  "env \<Rightarrow> string \<Rightarrow> service_info list \<Rightarrow> scanner \<Rightarrow> (error + string) \<times> scanner" where
  "get_device_type_hint e x svcs s =
     (if startswith x ''127.'' \<or> x = ''::1'' then (Inr [], s)
      else (let service_ports = map port svcs;
                is_likely_gateway = (endswith x ''.1'' \<or> endswith x ''.254'' \<or> endswith x ''.255'')
            in case get_hostname e x s of
                 (Inl err, s1) \<Rightarrow> (Inl err, s1)
               | (Inr result, s1) \<Rightarrow>
                   (let hn = (if result \<noteq> [] \<and> lower result \<noteq> ''unknown'' \<and> lower result \<noteq> x
                              then lower result else [])
                    in (Inr (classify_device is_likely_gateway hn service_ports), s1))))"

definition enhance_hostname ::
  "env \<Rightarrow> string \<Rightarrow> string \<Rightarrow> service_info list \<Rightarrow> scanner \<Rightarrow> (error + string) \<times> scanner" where
  "enhance_hostname e x hn svcs s =
     (if hn \<noteq> x then (Inr hn, s)
      else (case get_device_type_hint e x svcs s of
              (Inl err, s1) \<Rightarrow> (Inl err, s1)
            | (Inr device_type, s1) \<Rightarrow>
                if device_type \<noteq> [] then (Inr (device_type @ ''-'' @ last (split_on CHR ''.'' x)), s1)
                else if endswith x ''.1'' then (Inr (''Gateway-'' @ last (split_on CHR ''.'' x)), s1)
                else (Inr x, s1)))"

section \<open>The scan: \<open>scan_network\<close>\<close>

text \<open>
  Step 2. All lookups are handed to the pool; the workers run them whether or not the
  scanning thread later stops taking results, because leaving the \<open>with\<close> block
  waits for the pool.
\<close>

fun submit_hostnames :: "env \<Rightarrow> host list \<Rightarrow> scanner \<Rightarrow> (error + string) list \<times> scanner" where
  "submit_hostnames e [] s = ([], s)"
| "submit_hostnames e (h # hs) s =
     (case get_hostname e (ip h) s of
        (r, s1) \<Rightarrow> (case submit_hostnames e hs s1 of (rs, s2) \<Rightarrow> (r # rs, s2)))"

fun hostname_collect ::
  "env \<Rightarrow> nat \<Rightarrow> (string \<times> (error + string)) list \<Rightarrow> nat \<Rightarrow> (string \<Rightarrow> string option)
     \<Rightarrow> scanner \<Rightarrow> (string \<Rightarrow> string option) \<times> scanner" where
  "hostname_collect e total_hosts [] completed hostname_results s = (hostname_results, s)"
| "hostname_collect e total_hosts (f # rest) completed hostname_results s =
     (case stop_scanning e s of
        (stop, s1) \<Rightarrow>
          if stop then (hostname_results, s1)
          else (let x = fst f;
                    hostname_results' =
                      hostname_results(x \<mapsto> (case snd f of Inl err \<Rightarrow> x | Inr h \<Rightarrow> h));
                    completed' = completed + 1;
                    progress = 35 + (of_nat completed' / of_nat total_hosts) * 20
                in hostname_collect e total_hosts rest completed' hostname_results'
                     (update_progress (Resolved completed' total_hosts) progress s1)))"

definition resolve_hostnames ::
  "env \<Rightarrow> host list \<Rightarrow> scanner \<Rightarrow> (error + (string \<Rightarrow> string option)) \<times> scanner" where
  "resolve_hostnames e hosts s =
     (let total_hosts = length hosts;
          s1 = update_progress ResolvingHostnames 35 s
      in if min (discovery_threads e) (int total_hosts) \<le> 0 then (Inl ValueError, s1)
         else (case submit_hostnames e hosts s1 of
                 (outcomes, s2) \<Rightarrow>
                   (case hostname_collect e total_hosts
                           (as_completed (hostname_order e) (zip (map ip hosts) outcomes))
                           0 Map.empty s2 of
                      (hostname_results, s3) \<Rightarrow> (Inr hostname_results, s3))))"

text \<open>Step 3. The host by service product, in the order of the two nested loops.\<close>

definition all_scan_tasks :: "host list \<Rightarrow> service_info list \<Rightarrow> (string \<times> service_info) list" where
  "all_scan_tasks hosts svcs = concat (map (\<lambda>h. map (\<lambda>sv. (ip h, sv)) svcs) hosts)"

definition check_port_socket :: "env \<Rightarrow> string \<Rightarrow> nat \<Rightarrow> string \<Rightarrow> bool" where
  "check_port_socket e x p proto =
     (if lower proto = ''tcp'' then (case port_connect e x p of None \<Rightarrow> False | Some r \<Rightarrow> r = 0)
      else if lower proto = ''udp''
      then (case udp_probe e x p of
              UdpReply \<Rightarrow> True | UdpTimeout \<Rightarrow> True | UdpRecvError \<Rightarrow> False | UdpSendError \<Rightarrow> False)
      else False)"

text \<open>
  \<open>_check_port\<close> reads the flag in its worker. The scanning thread takes a result only
  after a later read of its own saw \<open>False\<close>, and the flag never falls back during a
  scan, so every result that is taken was computed with the flag down.
\<close>

definition check_port :: "env \<Rightarrow> bool \<Rightarrow> string \<Rightarrow> nat \<Rightarrow> string \<Rightarrow> bool" where
  "check_port e stop x p proto = (if stop then False else check_port_socket e x p proto)"

fun port_collect ::
  "env \<Rightarrow> nat \<Rightarrow> (string \<times> service_info) list \<Rightarrow> nat \<Rightarrow> (string \<Rightarrow> service_info list option)
     \<Rightarrow> scanner \<Rightarrow> (string \<Rightarrow> service_info list option) \<times> scanner" where
  "port_collect e total_scans [] completed service_results s = (service_results, s)"
| "port_collect e total_scans (t # rest) completed service_results s =
     (case stop_scanning e s of
        (stop, s1) \<Rightarrow>
          if stop then (service_results, s1)
          else (let service_results' =
                      (if check_port e False (fst t) (port (snd t)) (protocol (snd t))
                       then (case service_results (fst t) of
                               None \<Rightarrow> service_results
                             | Some found \<Rightarrow> service_results(fst t \<mapsto> found @ [snd t]))
                       else service_results);
                    completed' = completed + 1;
                    progress = 55 + (of_nat completed' / of_nat total_scans) * 30
                in port_collect e total_scans rest completed' service_results'
                     (if completed' mod 20 = 0 \<or> completed' = total_scans
                      then update_progress (Scanned completed' total_scans) progress s1
                      else s1)))"

definition scan_services ::
  "env \<Rightarrow> host list \<Rightarrow> scanner \<Rightarrow> (error + (string \<Rightarrow> service_info list option)) \<times> scanner" where
  "scan_services e hosts s =
     (let s1 = update_progress ScanningServices 55 s;
          tasks = all_scan_tasks hosts (services_to_scan e);
          service_results = map_of (map (\<lambda>h. (ip h, [])) hosts);
          total_scans = length tasks;
          s2 = update_progress (StartingPortScan total_scans (thread_count e)) 55 s1
      in if thread_count e \<le> 0 then (Inl ValueError, s2)
         else (case port_collect e total_scans (as_completed (port_order e) tasks) 0 service_results
                      (s2\<lparr>trace := trace s2 @ map (\<lambda>t. PortProbe (fst t) (snd t)) tasks\<rparr>) of
                 (found, s3) \<Rightarrow> (Inr found, s3)))"

text \<open>
  Step 4. \<open>results\<close> grows by one \<open>ScanResult\<close> per host; an exception leaves the loop
  with the list as it stands.
\<close>

fun combine_results ::
  "env \<Rightarrow> host list \<Rightarrow> (string \<Rightarrow> string option) \<Rightarrow> (string \<Rightarrow> service_info list option)
     \<Rightarrow> scan_result list \<Rightarrow> scanner \<Rightarrow> (error option \<times> scan_result list) \<times> scanner" where
  "combine_results e [] hostname_results service_results results s = ((None, results), s)"
| "combine_results e (host_data # rest) hostname_results service_results results s =
     (case stop_scanning e s of
        (stop, s1) \<Rightarrow>
          if stop then ((None, results), s1)
          else (let x = ip host_data;
                    hn = (case hostname_results x of None \<Rightarrow> x | Some h \<Rightarrow> h);
                    svcs = (case service_results x of None \<Rightarrow> [] | Some found \<Rightarrow> found)
                in case enhance_hostname e x hn svcs s1 of
                     (Inl err, s2) \<Rightarrow> ((Some err, results), s2)
                   | (Inr hn', s2) \<Rightarrow>
                       combine_results e rest hostname_results service_results
                         (results @ [\<lparr>ip = x, mac = mac host_data, vendor = vendor host_data,
                                      hostname = hn', services = svcs, response_time = 0,
                                      is_alive = True\<rparr>]) s2))"

text \<open>
  \<open>scan_network\<close> lowers the flag, reports, and calls \<open>discover_hosts\<close>; of
  discovery, \<open>probing\<close> is the part before the host list is built.
\<close>

definition scan_start :: "scanner \<Rightarrow> scanner" where
  "scan_start s0 = update_progress ScanningForLiveHosts 5 (s0\<lparr>stop_checks := 0\<rparr>)"

definition probing ::
  "env \<Rightarrow> string \<Rightarrow> scanner \<Rightarrow> (error + string list \<times> string set) \<times> scanner" where
  "probing e network_range s0 =
     find_alive e network_range (update_progress DiscoveringHosts 10 (scan_start s0))"

text \<open>
  The handler of the \<open>try\<close> block reports the failure and returns \<open>results\<close>, which
  is still empty before step 4.
\<close>

definition scan_network :: "env \<Rightarrow> string \<Rightarrow> scanner \<Rightarrow> scan_result list \<times> scanner" where
  "scan_network e network_range s0 =
     (case discover_hosts e network_range (scan_start s0) of
        (hosts, s1) \<Rightarrow>
          if hosts = [] then ([], update_progress NoHostsFound 100 s1)
          else (case resolve_hostnames e hosts s1 of
                  (Inl err, s2) \<Rightarrow> ([], update_progress (ScanFailed err) 100 s2)
                | (Inr hostname_results, s2) \<Rightarrow>
                    (case scan_services e hosts s2 of
                       (Inl err, s3) \<Rightarrow> ([], update_progress (ScanFailed err) 100 s3)
                     | (Inr service_results, s3) \<Rightarrow>
                         (case combine_results e hosts hostname_results service_results []
                                 (update_progress FinalizingResults 85 s3) of
                            ((Some err, results), s4) \<Rightarrow>
                              (results, update_progress (ScanFailed err) 100 s4)
                          | ((None, results), s4) \<Rightarrow>
                              (results, update_progress ScanCompleted 100 s4)))))"


section \<open>Reading a trace and a result\<close>

fun is_port_probe :: "event \<Rightarrow> bool" where
  "is_port_probe (PortProbe x sv) = True"
| "is_port_probe ev = False"

fun is_ping_or_tcp_probe :: "event \<Rightarrow> bool" where
  "is_ping_or_tcp_probe (PingProbe x) = True"
| "is_ping_or_tcp_probe (TcpProbe x p) = True"
| "is_ping_or_tcp_probe ev = False"

fun is_liveness_probe :: "event \<Rightarrow> bool" where
  "is_liveness_probe (PingProbe x) = True"
| "is_liveness_probe ArpRead = True"
| "is_liveness_probe (TcpProbe x p) = True"
| "is_liveness_probe ev = False"

fun is_oui_lookup :: "event \<Rightarrow> bool" where
  "is_oui_lookup (OuiLookup m) = True"
| "is_oui_lookup ev = False"


text \<open>
  What step 4 copies into a \<open>ScanResult\<close> from a host and from the service map, and
  the same fields read off a result (the name is left out).
\<close>

definition assembled ::
  "(string \<Rightarrow> service_info list option) \<Rightarrow> host
     \<Rightarrow> string \<times> string \<times> string \<times> service_info list \<times> bool" where
  "assembled found h =
     (ip h, mac h, vendor h, (case found (ip h) of None \<Rightarrow> [] | Some fs \<Rightarrow> fs), True)"

definition summary ::
  "scan_result \<Rightarrow> string \<times> string \<times> string \<times> service_info list \<times> bool" where
  "summary res = (ip res, mac res, vendor res, services res, is_alive res)"

section \<open>A sample network\<close>

text \<open>
  Two catalogue entries of \<open>COMMON_SERVICES\<close>, a scanner as \<open>__init__\<close> leaves its
  caches, and a small network for the concrete runs below: 10.0.0.1 and 10.0.0.2
  answer the ping, the second before the first; port 80 is open on 10.0.0.1 only;
  the neighbour table knows 10.0.0.2; reverse DNS knows 10.0.0.1 as \<open>alpha\<close>.
\<close>

definition http :: service_info where
  "http = \<lparr>name = ''HTTP'', port = 80, protocol = ''tcp'',
            description = ''Web interface'', access_method = ''http''\<rparr>"

definition ssh :: service_info where
  "ssh = \<lparr>name = ''SFTP/SSH'', port = 22, protocol = ''tcp'',
           description = ''Secure Shell/SFTP'', access_method = ''ssh''\<rparr>"

definition new_scanner :: scanner where
  "new_scanner = \<lparr>stop_checks = 0, trace = [], hostname_cache = Map.empty,
                   vendor_cache = Map.empty, ieee_oui_available = None,
                   oui_database = None\<rparr>"

definition lab_env :: env where
  "lab_env = \<lparr>discovery_threads = 130, thread_count = 130,
               services_to_scan = [http, ssh], cancel_at = None,
               ping_reply = (\<lambda>x. x = ''10.0.0.1'' \<or> x = ''10.0.0.2''),
               ping_order = (\<lambda>batch_start i. 1 - i),
               arp_table = [(''10.0.0.2'', ''00:11:22:33:44:55'')],
               tcp_ping_connect = (\<lambda>x p. None),
               resolve_hostname = (\<lambda>x. if x = ''10.0.0.1'' then Inr ''alpha'' else Inr x),
               hostname_order = (\<lambda>i. i),
               port_connect = (\<lambda>x p. if x = ''10.0.0.1'' \<and> p = 80 then Some 0 else Some 111),
               udp_probe = (\<lambda>x p. UdpSendError),
               port_order = (\<lambda>i. i),
               oui_isfile = True,
               oui_lines = Some [''# IEEE OUI assignments'', ''001122 Acme Corp'']\<rparr>"

section \<open>Properties of the range expander\<close>

text \<open>Ranges between numerals stay folded.\<close>

declare upt_rec_numeral [simp del]

lemma of_char_digit_char: "d < 10 \<Longrightarrow> (of_char (digit_char d) :: nat) = 48 + d"
  by (simp add: digit_char_def)

lemma is_digit_digit_char: "d < 10 \<Longrightarrow> is_digit (digit_char d)"
  by (simp add: is_digit_def of_char_digit_char)

lemma digit_val_digit_char: "d < 10 \<Longrightarrow> digit_val (digit_char d) = d"
  by (simp add: digit_val_def of_char_digit_char)

lemma digit_char_0: "digit_char 0 = CHR ''0''"
  by code_simp

lemma digit_char_eq_0: "d < 10 \<Longrightarrow> digit_char d = CHR ''0'' \<longleftrightarrow> d = 0"
proof
  assume "d < 10" and "digit_char d = CHR ''0''"
  then have "(of_char (digit_char d) :: nat) = of_char CHR ''0''" by simp
  with \<open>d < 10\<close> show "d = 0" by (simp add: of_char_digit_char)
next
  assume "d = 0" then show "digit_char d = CHR ''0''" by (simp add: digit_char_0)
qed

lemma str_nat_not_Nil [simp]: "str_nat n \<noteq> []"
  by (subst str_nat.simps) simp

lemma str_nat_digits: "list_all is_digit (str_nat n)"
proof (induction n rule: str_nat.induct)
  case (1 n)
  show ?case
  proof (cases "n < 10")
    case True
    then show ?thesis by (subst str_nat.simps) (simp add: is_digit_digit_char)
  next
    case False
    with 1 show ?thesis by (subst str_nat.simps) (simp add: is_digit_digit_char)
  qed
qed

lemma dec_value_snoc: "dec_value (xs @ [c]) = 10 * dec_value xs + digit_val c"
  by (simp add: dec_value_def)

lemma dec_value_str_nat: "dec_value (str_nat n) = n"
proof (induction n rule: str_nat.induct)
  case (1 n)
  show ?case
  proof (cases "n < 10")
    case True
    then show ?thesis
      by (subst str_nat.simps) (simp add: dec_value_def digit_val_digit_char)
  next
    case False
    with 1 show ?thesis
      by (subst str_nat.simps) (simp add: dec_value_snoc digit_val_digit_char)
  qed
qed

lemma hd_str_nat: "n \<noteq> 0 \<Longrightarrow> hd (str_nat n) \<noteq> CHR ''0''"
proof (induction n rule: str_nat.induct)
  case (1 n)
  show ?case
  proof (cases "n < 10")
    case True
    with 1(2) show ?thesis by (subst str_nat.simps) (simp add: digit_char_eq_0)
  next
    case False
    then have "n div 10 \<noteq> 0" by simp
    with 1(1) False have "hd (str_nat (n div 10)) \<noteq> CHR ''0''" by simp
    with False show ?thesis by (subst str_nat.simps) simp
  qed
qed

lemma str_nat_0: "str_nat 0 = ''0''"
  by (subst str_nat.simps) (simp add: digit_char_0)

lemma length_str_nat_le3: "n < 1000 \<Longrightarrow> length (str_nat n) \<le> 3"
  apply (subst str_nat.simps)
  apply (simp del: str_nat_not_Nil)
  apply (rule impI)
  apply (subst str_nat.simps)
  apply simp
  apply (rule impI)
  apply (subst str_nat.simps)
  apply simp
  done

lemma is_digit_not_special:
  "is_digit c \<Longrightarrow> c \<noteq> CHR ''.'' \<and> c \<noteq> CHR ''-'' \<and> c \<noteq> CHR ''/'' \<and> c \<noteq> CHR ''_''
     \<and> c \<noteq> CHR ''+'' \<and> \<not> is_space c"
  by (auto simp: is_digit_def is_space_def Let_def)

lemma parse_octet_str_nat: "n \<le> 255 \<Longrightarrow> parse_octet (str_nat n) = Inr n"
proof (cases "n = 0")
  case True
  then show ?thesis
    by (simp add: parse_octet_def str_nat_0 dec_value_def digit_val_def is_digit_def)
next
  case False
  assume "n \<le> 255"
  with False show ?thesis
    using hd_str_nat [of n] length_str_nat_le3 [of n]
    by (simp add: parse_octet_def str_nat_digits dec_value_str_nat Let_def)
qed

lemma split_on_notin: "c \<notin> set xs \<Longrightarrow> split_on c xs = [xs]"
  by (induction xs) auto

lemma split_on_append: "c \<notin> set xs \<Longrightarrow> split_on c (xs @ c # ys) = xs # split_on c ys"
  by (induction xs) auto

lemma notin_str_nat:
  "CHR ''.'' \<notin> set (str_nat n)" "CHR ''-'' \<notin> set (str_nat n)"
  "CHR ''/'' \<notin> set (str_nat n)" "CHR ''_'' \<notin> set (str_nat n)"
  using str_nat_digits [of n] is_digit_not_special
  by (auto simp: list_all_iff)

lemma dotted_unfold:
  "dotted a b c d = str_nat a @ ''.'' @ str_nat b @ ''.'' @ str_nat c @ ''.'' @ str_nat d"
  by (simp add: dotted_def)

lemma notin_dotted: "CHR ''-'' \<notin> set (dotted a b c d)" "CHR ''/'' \<notin> set (dotted a b c d)"
  by (simp_all add: dotted_unfold notin_str_nat)

lemma split_dotted:
  "split_on CHR ''.'' (dotted a b c d) = [str_nat a, str_nat b, str_nat c, str_nat d]"
  by (simp add: dotted_unfold split_on_append split_on_notin notin_str_nat)

lemma ip_int_from_string_dotted:
  "a \<le> 255 \<Longrightarrow> b \<le> 255 \<Longrightarrow> c \<le> 255 \<Longrightarrow> d \<le> 255 \<Longrightarrow>
   ip_int_from_string (dotted a b c d) = Inr (ip_value a b c d)"
proof -
  have "dotted a b c d \<noteq> []" by (simp add: dotted_unfold)
  then show "a \<le> 255 \<Longrightarrow> b \<le> 255 \<Longrightarrow> c \<le> 255 \<Longrightarrow> d \<le> 255 \<Longrightarrow> ?thesis"
    by (simp add: ip_int_from_string_def split_dotted parse_octet_str_nat ip_value_def Let_def)
qed

lemma ip_address_dotted:
  "a \<le> 255 \<Longrightarrow> b \<le> 255 \<Longrightarrow> c \<le> 255 \<Longrightarrow> d \<le> 255 \<Longrightarrow>
   ip_address (dotted a b c d) = Inr (ip_value a b c d)"
  by (simp add: ip_address_def ip_int_from_string_dotted notin_dotted)

lemma strip_digit_ends:
  "s \<noteq> [] \<Longrightarrow> is_digit (hd s) \<Longrightarrow> is_digit (last s) \<Longrightarrow> strip s = s"
proof -
  assume ne: "s \<noteq> []" and h: "is_digit (hd s)" and l: "is_digit (last s)"
  from h have "\<not> is_space (hd s)" using is_digit_not_special by blast
  then have 1: "dropWhile is_space s = s" by (simp add: dropWhile_eq_self_iff)
  from l have "\<not> is_space (hd (rev s))" using is_digit_not_special ne by (simp add: hd_rev)
  then have 2: "dropWhile is_space (rev s) = rev s" by (simp add: dropWhile_eq_self_iff)
  show ?thesis by (simp add: strip_def 1 2)
qed

lemma digit_ends_str_nat: "is_digit (hd (str_nat n))" "is_digit (last (str_nat n))"
  using str_nat_digits [of n] by (auto simp: list_all_iff)

lemma strip_str_nat: "strip (str_nat n) = str_nat n"
  by (simp add: strip_digit_ends digit_ends_str_nat)

lemma strip_dotted: "strip (dotted a b c d) = dotted a b c d"
  by (rule strip_digit_ends) (simp_all add: dotted_unfold digit_ends_str_nat)

lemma py_int_unsigned_str_nat: "py_int_unsigned (str_nat n) = Some n"
proof -
  have "filter (\<lambda>c. c \<noteq> CHR ''_'') (str_nat n) = str_nat n"
    using notin_str_nat(4) [of n] by (auto simp: filter_id_conv)
  then show ?thesis
    by (simp add: py_int_unsigned_def split_on_notin notin_str_nat str_nat_digits
        dec_value_str_nat)
qed

lemma py_int_str_nat: "py_int (str_nat n) = Some (int n)"
proof -
  obtain c cs where eq: "str_nat n = c # cs" by (cases "str_nat n") simp_all
  have "is_digit c" using digit_ends_str_nat(1) [of n] by (simp add: eq)
  then have "c \<noteq> CHR ''-''" "c \<noteq> CHR ''+''" using is_digit_not_special by blast+
  moreover have "py_int_unsigned (c # cs) = Some n"
    using py_int_unsigned_str_nat [of n] by (simp add: eq)
  moreover have "strip (c # cs) = c # cs"
    using strip_str_nat [of n] by (simp add: eq)
  ultimately show ?thesis
    using eq by (simp add: py_int_def)
qed

lemma str_int_int: "str_int (int n) = str_nat n"
  by (simp add: str_int_def)

lemma upto_int_conv: "[int s .. int e] = map int [s ..< Suc e]"
proof (induction e)
  case 0
  show ?case by (cases s) (simp_all add: upto.simps)
next
  case (Suc e)
  show ?case
  proof (cases "s \<le> Suc e")
    case True
    then have "[int s .. int (Suc e)] = [int s .. int e] @ [int (Suc e)]"
      using upto_rec2 [of "int s" "int (Suc e)"] by simp
    with Suc True show ?thesis by simp
  next
    case False
    then show ?thesis by simp
  qed
qed

lemma trailing_octet_body:
  assumes "a \<le> 255" "b \<le> 255" "c \<le> 255" "s \<le> 255"
  shows "parse_body (dotted a b c s @ ''-'' @ str_nat e)
         = Inr (map (\<lambda>i. dotted a b c i) [s ..< Suc e])"
proof -
  define r where "r = dotted a b c s @ ''-'' @ str_nat e"
  have no_slash: "CHR ''/'' \<notin> set r" by (simp add: r_def notin_dotted notin_str_nat)
  have dash: "CHR ''-'' \<in> set r" by (simp add: r_def)
  have cnt: "count_list r CHR ''-'' = 1"
    by (simp add: r_def notin_dotted notin_str_nat count_list_0_iff)
  have parts: "split_on CHR ''-'' r = [dotted a b c s, str_nat e]"
    by (simp add: r_def split_on_append split_on_notin notin_dotted notin_str_nat)
  have base: "join ''.'' (butlast (split_on CHR ''.'' (dotted a b c s))) @ ''.'' @ str_nat i
        = dotted a b c i" for i
    unfolding split_dotted by (simp add: dotted_unfold)
  have "parse_body r = Inr (map (\<lambda>i. dotted a b c i) [s ..< Suc e])"
    using no_slash dash cnt assms
    by (simp add: parse_body_def parts strip_dotted strip_str_nat ip_address_dotted
        notin_str_nat split_dotted py_int_str_nat upto_int_conv str_int_int o_def
        Let_def del: upt_Suc)
      (simp add: dotted_unfold)
  then show ?thesis by (simp only: r_def)
qed

lemma prefix_string_str_nat: "n \<le> 32 \<Longrightarrow> prefix_from_prefix_string (str_nat n) = Some n"
  by (simp add: prefix_from_prefix_string_def str_nat_digits dec_value_str_nat Let_def)

lemma cidr_network:
  assumes "a \<le> 255" "b \<le> 255" "c \<le> 255" "d \<le> 255" "n \<le> 32"
  shows "ip_network (dotted a b c d @ ''/'' @ str_nat n)
         = Inr \<lparr>network_address = ip_value a b c d - ip_value a b c d mod 2 ^ (32 - n),
                prefixlen = n\<rparr>"
proof -
  define r where "r = dotted a b c d @ ''/'' @ str_nat n"
  have parts: "split_on CHR ''/'' r = [dotted a b c d, str_nat n]"
    by (simp add: r_def split_on_append split_on_notin notin_dotted notin_str_nat)
  have "ip_network r
         = Inr \<lparr>network_address = ip_value a b c d - ip_value a b c d mod 2 ^ (32 - n),
                prefixlen = n\<rparr>"
    using assms
    by (simp add: ip_network_def parts ip_int_from_string_dotted make_netmask_def
        prefix_string_str_nat Let_def)
  then show ?thesis by (simp only: r_def)
qed

lemma cidr_body:
  assumes "a \<le> 255" "b \<le> 255" "c \<le> 255" "d \<le> 255" "n \<le> 30"
  shows "parse_body (dotted a b c d @ ''/'' @ str_nat n)
         = Inr (map str_ip
             [Suc (ip_value a b c d - ip_value a b c d mod 2 ^ (32 - n)) ..<
              ip_value a b c d - ip_value a b c d mod 2 ^ (32 - n) + (2 ^ (32 - n) - 1)])"
proof -
  define r where "r = dotted a b c d @ ''/'' @ str_nat n"
  have slash: "CHR ''/'' \<in> set r" by (simp add: r_def)
  have net: "ip_network r
         = Inr \<lparr>network_address = ip_value a b c d - ip_value a b c d mod 2 ^ (32 - n),
                prefixlen = n\<rparr>"
    unfolding r_def using assms by (intro cidr_network) simp_all
  have "parse_body r = Inr (map str_ip
             [Suc (ip_value a b c d - ip_value a b c d mod 2 ^ (32 - n)) ..<
              ip_value a b c d - ip_value a b c d mod 2 ^ (32 - n) + (2 ^ (32 - n) - 1)])"
    using slash assms(5)
    by (simp add: parse_body_def net network_hosts_def broadcast_address_def)
  then show ?thesis by (simp only: r_def)
qed

lemma digit_char_simps:
  "digit_char 0 = CHR ''0''" "digit_char 1 = CHR ''1''" "digit_char (Suc 0) = CHR ''1''"
  "digit_char 2 = CHR ''2''" "digit_char 3 = CHR ''3''" "digit_char 4 = CHR ''4''"
  "digit_char 5 = CHR ''5''" "digit_char 6 = CHR ''6''" "digit_char 7 = CHR ''7''"
  "digit_char 8 = CHR ''8''" "digit_char 9 = CHR ''9''"
  by code_simp+

lemma str_nat_numeral:
  "str_nat (numeral k) =
     (if (numeral k :: nat) < 10 then [digit_char (numeral k)]
      else str_nat (numeral k div 10) @ [digit_char (numeral k mod 10)])"
  by (rule str_nat.simps)

lemma str_nat_small: "str_nat 0 = ''0''" "str_nat 1 = ''1''" "str_nat (Suc 0) = ''1''"
  by (subst str_nat.simps, simp add: digit_char_simps)+

lemmas str_nat_eval = str_nat_numeral str_nat_small digit_char_simps

lemma parse_octet_too_big:
  assumes "255 < n"
  shows "parse_octet (str_nat n) = Inl ValueError"
  using assms by (simp add: parse_octet_def str_nat_digits dec_value_str_nat Let_def)

lemma ip_address_octet_too_big:
  assumes "a \<le> 255" "b \<le> 255" "c \<le> 255" "255 < e"
  shows "ip_address (dotted a b c e) = Inl ValueError"
proof -
  have "dotted a b c e \<noteq> []" by (simp add: dotted_unfold)
  then show ?thesis
    using assms
    by (simp add: ip_address_def ip_int_from_string_def split_dotted parse_octet_str_nat
        parse_octet_too_big notin_dotted Let_def)
qed

lemma trailing_octet_range:
  assumes "a \<le> 255" "b \<le> 255" "c \<le> 255" "s \<le> 255"
  shows "parse_ip_range (dotted a b c s @ ''-'' @ str_nat e)
         = Inr (map (\<lambda>i. dotted a b c i) [s ..< Suc e])"
  using trailing_octet_body [OF assms] by (simp add: parse_ip_range_def)

text \<open>
  C10. A range \<open>a.b.c.s-e\<close> with octets \<open>a, b, c, s\<close> and \<open>s \<le> e\<close> expands to the
  \<open>e - s + 1\<close> strings \<open>a.b.c.s\<close> to \<open>a.b.c.e\<close>. The end bound is not checked against
  255: no error is raised, and for \<open>e > 255\<close> the last string is not an IPv4 address
  literal.
\<close>

theorem trailing_octet_end_unchecked:
  assumes "a \<le> 255" "b \<le> 255" "c \<le> 255" "s \<le> 255" "s \<le> e"
  shows "parse_ip_range (dotted a b c s @ ''-'' @ str_nat e)
           = Inr (map (\<lambda>i. dotted a b c i) [s ..< Suc e])
         \<and> length (map (\<lambda>i. dotted a b c i) [s ..< Suc e]) = e - s + 1
         \<and> last (map (\<lambda>i. dotted a b c i) [s ..< Suc e]) = dotted a b c e
         \<and> (if 255 < e then ip_address (dotted a b c e) = Inl ValueError
            else ip_address (dotted a b c e) = Inr (ip_value a b c e))"
proof -
  have "length (map (\<lambda>i. dotted a b c i) [s ..< Suc e]) = e - s + 1"
    using assms(5) by (simp add: Suc_diff_le)
  moreover have "last (map (\<lambda>i. dotted a b c i) [s ..< Suc e]) = dotted a b c e"
    using assms(5) by simp
  moreover have "if 255 < e then ip_address (dotted a b c e) = Inl ValueError
            else ip_address (dotted a b c e) = Inr (ip_value a b c e)"
    using assms(1-3) by (simp add: ip_address_octet_too_big ip_address_dotted)
  ultimately show ?thesis
    using trailing_octet_range [OF assms(1-4), of e] by blast
qed

theorem trailing_octet_end_unchecked_witness:
  "parse_ip_range ''192.168.1.250-300'' = Inr (map (\<lambda>i. dotted 192 168 1 i) [250 ..< 301])
   \<and> length (map (\<lambda>i. dotted 192 168 1 i) [250 ..< 301]) = 51
   \<and> last (map (\<lambda>i. dotted 192 168 1 i) [250 ..< 301]) = ''192.168.1.300''
   \<and> ip_address ''192.168.1.300'' = Inl ValueError"
proof -
  have e1: "dotted 192 168 1 250 @ ''-'' @ str_nat 300 = ''192.168.1.250-300''"
    by (simp add: dotted_def str_nat_eval)
  have e2: "dotted 192 168 1 300 = ''192.168.1.300''"
    by (simp add: dotted_def str_nat_eval)
  show ?thesis
    using trailing_octet_end_unchecked [of 192 168 1 250 300]
    unfolding e1 e2 by simp
qed

text \<open>
  C7. \<open>"192.168.1.1-254"\<close> expands to exactly 254 addresses, \<open>192.168.1.1\<close> to
  \<open>192.168.1.254\<close>, in ascending order: the \<open>k\<close>-th string is \<open>192.168.1.k\<close>, and read
  back as addresses the strings are the consecutive values from 192.168.1.1 on.
\<close>

theorem range_1_to_254:
  "parse_ip_range ''192.168.1.1-254'' = Inr (map (\<lambda>i. ''192.168.1.'' @ str_nat i) [1 ..< 255])
   \<and> length (map (\<lambda>i. ''192.168.1.'' @ str_nat i) [1 ..< 255]) = 254
   \<and> hd (map (\<lambda>i. ''192.168.1.'' @ str_nat i) [1 ..< 255]) = ''192.168.1.1''
   \<and> last (map (\<lambda>i. ''192.168.1.'' @ str_nat i) [1 ..< 255]) = ''192.168.1.254''
   \<and> map ip_address (map (\<lambda>i. ''192.168.1.'' @ str_nat i) [1 ..< 255])
       = map (\<lambda>i. Inr (3232235776 + i)) [1 ..< 255]"
proof -
  have e1: "dotted 192 168 1 1 @ ''-'' @ str_nat 254 = ''192.168.1.1-254''"
    by (simp add: dotted_def str_nat_eval)
  have e2: "(\<lambda>i. dotted 192 168 1 i) = (\<lambda>i. ''192.168.1.'' @ str_nat i)"
    by (rule ext) (simp add: dotted_def str_nat_eval)
  have e3: "Suc 254 = 255" by simp
  have "parse_ip_range (dotted 192 168 1 1 @ ''-'' @ str_nat 254)
          = Inr (map (\<lambda>i. dotted 192 168 1 i) [1 ..< Suc 254])"
    by (rule trailing_octet_range) simp_all
  then have "parse_ip_range ''192.168.1.1-254''
          = Inr (map (\<lambda>i. dotted 192 168 1 i) [1 ..< 255])"
    unfolding e1 e3 .
  then have 1: "parse_ip_range ''192.168.1.1-254''
          = Inr (map (\<lambda>i. ''192.168.1.'' @ str_nat i) [1 ..< 255])"
    unfolding e2 .
  have 2: "hd (map (\<lambda>i. ''192.168.1.'' @ str_nat i) [1 ..< 255]) = ''192.168.1.1''"
    by (simp add: hd_map str_nat_eval)
  have 3: "last (map (\<lambda>i. ''192.168.1.'' @ str_nat i) [1 ..< 255]) = ''192.168.1.254''"
    by (simp add: last_map str_nat_eval)
  have "ip_address (''192.168.1.'' @ str_nat i) = Inr (3232235776 + i)" if "i \<le> 255" for i
    using ip_address_dotted [of 192 168 1 i] that unfolding e2 by (simp add: ip_value_def)
  then have 4: "map ip_address (map (\<lambda>i. ''192.168.1.'' @ str_nat i) [1 ..< 255])
       = map (\<lambda>i. Inr (3232235776 + i)) [1 ..< 255]"
    by simp
  have 5: "length (map (\<lambda>i. ''192.168.1.'' @ str_nat i) [1 ..< 255]) = 254"
    by simp
  show ?thesis using 1 2 3 4 5 by blast
qed

lemma cidr_range:
  assumes "a \<le> 255" "b \<le> 255" "c \<le> 255" "d \<le> 255" "n \<le> 30"
  shows "parse_ip_range (dotted a b c d @ ''/'' @ str_nat n)
         = Inr (map str_ip
             [Suc (ip_value a b c d - ip_value a b c d mod 2 ^ (32 - n)) ..<
              ip_value a b c d - ip_value a b c d mod 2 ^ (32 - n) + (2 ^ (32 - n) - 1)])"
  using cidr_body [OF assms] by (simp add: parse_ip_range_def)

text \<open>
  C8. For a CIDR range \<open>a.b.c.d/n\<close> with \<open>n \<le> 30\<close> the expansion is the
  \<open>2 ^ (32 - n) - 2\<close> addresses strictly between the network address and the
  broadcast address, and the candidate list of the scan is its first 254 entries.
\<close>

theorem cidr_expansion_capped:
  assumes "a \<le> 255" "b \<le> 255" "c \<le> 255" "d \<le> 255" "n \<le> 30"
  shows "\<exists>ip_list network broadcast.
           network = ip_value a b c d - ip_value a b c d mod 2 ^ (32 - n)
         \<and> broadcast = network + 2 ^ (32 - n) - 1
         \<and> parse_ip_range (dotted a b c d @ ''/'' @ str_nat n) = Inr ip_list
         \<and> ip_list = map str_ip [network + 1 ..< broadcast]
         \<and> length ip_list = 2 ^ (32 - n) - 2
         \<and> candidate_list (dotted a b c d @ ''/'' @ str_nat n) = Inr (take 254 ip_list)
         \<and> length (take 254 ip_list) = min 254 (2 ^ (32 - n) - 2)"
proof -
  define network where "network = ip_value a b c d - ip_value a b c d mod 2 ^ (32 - n)"
  define ip_list where "ip_list = map str_ip [network + 1 ..< network + 2 ^ (32 - n) - 1]"
  have pos: "(1::nat) \<le> 2 ^ (32 - n)" by simp
  have p: "parse_ip_range (dotted a b c d @ ''/'' @ str_nat n) = Inr ip_list"
    using cidr_range [OF assms] pos by (simp add: ip_list_def network_def)
  have l: "length ip_list = 2 ^ (32 - n) - 2"
    using pos by (simp add: ip_list_def)
  have c: "candidate_list (dotted a b c d @ ''/'' @ str_nat n) = Inr (take 254 ip_list)"
    unfolding candidate_list_def p by simp
  have t: "length (take 254 ip_list) = min 254 (2 ^ (32 - n) - 2)"
    using l by simp
  have "network = ip_value a b c d - ip_value a b c d mod 2 ^ (32 - n)
         \<and> network + 2 ^ (32 - n) - 1 = network + 2 ^ (32 - n) - 1
         \<and> parse_ip_range (dotted a b c d @ ''/'' @ str_nat n) = Inr ip_list
         \<and> ip_list = map str_ip [network + 1 ..< network + 2 ^ (32 - n) - 1]
         \<and> length ip_list = 2 ^ (32 - n) - 2
         \<and> candidate_list (dotted a b c d @ ''/'' @ str_nat n) = Inr (take 254 ip_list)
         \<and> length (take 254 ip_list) = min 254 (2 ^ (32 - n) - 2)"
    using p l c t network_def ip_list_def by blast
  then show ?thesis by blast
qed

theorem cidr_expansion_capped_witness:
  "\<exists>ip_list. parse_ip_range ''10.0.0.77/20'' = Inr ip_list
     \<and> ip_list = map str_ip [167772161 ..< 167776255]
     \<and> length ip_list = 4094
     \<and> candidate_list ''10.0.0.77/20'' = Inr (take 254 ip_list)
     \<and> length (take 254 ip_list) = 254
     \<and> hd ip_list = ''10.0.0.1'' \<and> last ip_list = ''10.0.15.254''"
proof -
  have e1: "dotted 10 0 0 77 @ ''/'' @ str_nat 20 = ''10.0.0.77/20''"
    by (simp add: dotted_def str_nat_eval)
  have e2: "ip_value 10 0 0 77 - ip_value 10 0 0 77 mod 2 ^ (32 - 20) = 167772160"
    by (simp add: ip_value_def)
  have e3: "hd (map str_ip [167772161 ..< 167776255]) = ''10.0.0.1''"
    by (simp add: hd_map str_ip_def str_nat_eval)
  have e4: "last (map str_ip [167772161 ..< 167776255]) = ''10.0.15.254''"
    by (simp add: last_map str_ip_def str_nat_eval)
  show ?thesis
    using cidr_expansion_capped [of 10 0 0 77 20] e3 e4
    unfolding e1 e2 by simp
qed

section \<open>The vendor cache\<close>

lemma get_vendor_cached:
  "vendor_cache s (normalize_mac m) = Some v \<Longrightarrow> get_vendor e m s = (v, s)"
  by (simp add: get_vendor_def)

lemma get_vendor_ieee_oui_effect:
  assumes "get_vendor_ieee_oui e m s = (v, s1)"
  shows "vendor_cache s1 = vendor_cache s \<and> trace s1 = trace s @ [OuiLookup m]
         \<and> stop_checks s1 = stop_checks s \<and> hostname_cache s1 = hostname_cache s"
  using assms
  by (auto simp: get_vendor_ieee_oui_def emit_def load_ieee_oui_file_def Let_def
      split: option.splits if_splits)

lemma get_vendor_effect:
  assumes "get_vendor e m s = (v, s1)"
  shows "vendor_cache s1 (normalize_mac m) = Some v
         \<and> (case vendor_cache s (normalize_mac m) of
              None \<Rightarrow> trace s1 = trace s @ [OuiLookup m]
            | Some c \<Rightarrow> s1 = s \<and> v = c)"
proof (cases "vendor_cache s (normalize_mac m)")
  case (Some c)
  then show ?thesis using assms by (simp add: get_vendor_def)
next
  case None
  obtain v' s' where l: "get_vendor_ieee_oui e m s = (v', s')"
    by (cases "get_vendor_ieee_oui e m s")
  from get_vendor_ieee_oui_effect [OF l] None assms l show ?thesis
    by (auto simp: get_vendor_def split: if_splits)
qed

text \<open>
  C9. Two calls of \<open>_get_vendor\<close> whose addresses normalize to the same key (the same
  address in particular): the second returns the string of the first and leaves the
  scanner as it was, so it performs no lookup. Over both calls the lookup behind the
  cache runs once if the key was not cached before, and not at all otherwise.
\<close>

theorem vendor_lookup_once:
  assumes "get_vendor e m s = (v1, s1)"
      and "normalize_mac m' = normalize_mac m"
      and "get_vendor e' m' s1 = (v2, s2)"
  shows "v2 = v1 \<and> s2 = s1
         \<and> filter is_oui_lookup (trace s2)
             = filter is_oui_lookup (trace s)
               @ (if vendor_cache s (normalize_mac m) = None then [OuiLookup m] else [])"
proof -
  from get_vendor_effect [OF assms(1)]
  have c: "vendor_cache s1 (normalize_mac m') = Some v1"
    and t: "(case vendor_cache s (normalize_mac m) of
              None \<Rightarrow> trace s1 = trace s @ [OuiLookup m]
            | Some c \<Rightarrow> s1 = s \<and> v1 = c)"
    by (simp_all add: assms(2))
  from get_vendor_cached [OF c, of e'] assms(3) have "v2 = v1" "s2 = s1" by simp_all
  moreover have "filter is_oui_lookup (trace s1)
             = filter is_oui_lookup (trace s)
               @ (if vendor_cache s (normalize_mac m) = None then [OuiLookup m] else [])"
    using t by (cases "vendor_cache s (normalize_mac m)") simp_all
  ultimately show ?thesis by simp
qed

lemma lab_vendor:
  "fst (get_vendor lab_env ''00:11:22:33:44:55'' new_scanner) = ''Acme Corp''"
  by (simp add: get_vendor_def get_vendor_ieee_oui_def lab_env_def new_scanner_def emit_def
      load_ieee_oui_file_def normalize_mac_def upper_def parse_oui_line_def strip_def
      is_space_def Let_def)

theorem vendor_lookup_once_witness:
  "fst (get_vendor lab_env ''00:11:22:33:44:55'' new_scanner) = ''Acme Corp''
   \<and> get_vendor lab_env ''00-11-22-33-44-55''
        (snd (get_vendor lab_env ''00:11:22:33:44:55'' new_scanner))
       = (''Acme Corp'', snd (get_vendor lab_env ''00:11:22:33:44:55'' new_scanner))
   \<and> filter is_oui_lookup
        (trace (snd (get_vendor lab_env ''00:11:22:33:44:55'' new_scanner)))
       = [OuiLookup ''00:11:22:33:44:55'']"
proof -
  let ?r = "get_vendor lab_env ''00:11:22:33:44:55'' new_scanner"
  have n: "normalize_mac ''00-11-22-33-44-55'' = normalize_mac ''00:11:22:33:44:55''"
    by (simp add: normalize_mac_def)
  obtain v2 s2 where 2: "get_vendor lab_env ''00-11-22-33-44-55'' (snd ?r) = (v2, s2)"
    by (cases "get_vendor lab_env ''00-11-22-33-44-55'' (snd ?r)")
  have 1: "?r = (fst ?r, snd ?r)" by simp
  have "trace new_scanner = []" "vendor_cache new_scanner (normalize_mac ''00:11:22:33:44:55'') = None"
    by (simp_all add: new_scanner_def)
  with vendor_lookup_once [OF 1 n 2] 2 lab_vendor show ?thesis by auto
qed

section \<open>What each step adds to the trace\<close>

lemma trace_emit [simp]: "trace (emit ev s) = trace s @ [ev]"
  by (simp add: emit_def)

lemma trace_update_progress [simp]: "trace (update_progress m p s) = trace s @ [Progress m p]"
  by (simp add: update_progress_def)

lemma checks_emit [simp]: "stop_checks (emit ev s) = stop_checks s"
  by (simp add: emit_def)

lemma checks_update_progress [simp]: "stop_checks (update_progress m p s) = stop_checks s"
  by (simp add: update_progress_def)

lemma stop_scanning_effect:
  "stop_scanning e s = (b, s1) \<Longrightarrow>
     trace s1 = trace s \<and> stop_checks s1 = Suc (stop_checks s)
     \<and> b = (case cancel_at e of None \<Rightarrow> False | Some k \<Rightarrow> k \<le> stop_checks s)"
  by (auto simp: stop_scanning_def)

lemma probes_get_vendor:
  "get_vendor e m s = (v, s1) \<Longrightarrow> filter is_port_probe (trace s1) = filter is_port_probe (trace s)"
  using get_vendor_effect [of e m s v s1]
  by (cases "vendor_cache s (normalize_mac m)") auto

lemma probes_ping_collect:
  "ping_collect e xs acc s = (acc', s1) \<Longrightarrow>
     filter is_port_probe (trace s1) = filter is_port_probe (trace s)"
  by (induction xs arbitrary: acc s)
     (auto simp: stop_scanning_def split: prod.splits if_splits)

lemma filter_probe_map_ping [simp]: "filter is_port_probe (map PingProbe xs) = []"
  by (induction xs) auto

lemma filter_probe_map_tcp [simp]:
  "filter is_port_probe (map (\<lambda>f. TcpProbe (fst f) (snd f)) xs) = []"
  by (induction xs) auto

lemma probes_ping_batches:
  "ping_batches e ip_list bs acc s = (r, s1) \<Longrightarrow>
     filter is_port_probe (trace s1) = filter is_port_probe (trace s)"
proof (induction bs arbitrary: acc s)
  case Nil
  then show ?case by simp
next
  case (Cons b bs)
  then show ?case
    by (auto simp: stop_scanning_def Let_def split: prod.splits if_splits
        dest!: probes_ping_collect)
qed

lemma probes_tcp_collect:
  "tcp_collect e fs st s = (acc', s1) \<Longrightarrow>
     filter is_port_probe (trace s1) = filter is_port_probe (trace s)"
  by (induction fs arbitrary: st s)
     (auto simp: stop_scanning_def split: prod.splits if_splits)

lemma probes_tcp_probe:
  "tcp_probe e ip_list acc s = (acc', s1) \<Longrightarrow>
     filter is_port_probe (trace s1) = filter is_port_probe (trace s)"
  by (auto simp: tcp_probe_def Let_def split: if_splits dest!: probes_tcp_collect)

lemma probes_build_hosts:
  "build_hosts e xs hosts s = (hosts', s1) \<Longrightarrow>
     filter is_port_probe (trace s1) = filter is_port_probe (trace s)"
proof (induction xs arbitrary: hosts s)
  case Nil
  then show ?case by simp
next
  case (Cons x xs)
  then show ?case
    by (auto simp: stop_scanning_def Let_def split: prod.splits if_splits
        dest!: probes_get_vendor)
qed

lemma probes_find_alive:
  "find_alive e r s = (res, s1) \<Longrightarrow>
     filter is_port_probe (trace s1) = filter is_port_probe (trace s)"
  by (auto simp: find_alive_def Let_def split: sum.splits prod.splits
      dest!: probes_ping_batches probes_tcp_probe)

lemma probes_discover_hosts:
  "discover_hosts e r s = (hosts, s1) \<Longrightarrow>
     filter is_port_probe (trace s1) = filter is_port_probe (trace s)"
  by (auto simp: discover_hosts_def enhanced_host_discovery_def split: sum.splits prod.splits
      dest!: probes_find_alive probes_build_hosts)

lemma lab_candidates: "candidate_list ''10.0.0.1-2'' = Inr [''10.0.0.1'', ''10.0.0.2'']"
proof -
  have e1: "dotted 10 0 0 1 @ ''-'' @ str_nat 2 = ''10.0.0.1-2''"
    by (simp add: dotted_def str_nat_eval)
  have e2: "map (\<lambda>i. dotted 10 0 0 i) [1 ..< Suc 2] = [''10.0.0.1'', ''10.0.0.2'']"
  proof -
    have "[1 ..< Suc 2] = [1, 2::nat]" by (simp add: upt_rec)
    then show ?thesis by (simp add: dotted_def str_nat_eval)
  qed
  have "parse_ip_range (dotted 10 0 0 1 @ ''-'' @ str_nat 2)
          = Inr (map (\<lambda>i. dotted 10 0 0 i) [1 ..< Suc 2])"
    by (rule trailing_octet_range) simp_all
  then have "parse_ip_range ''10.0.0.1-2'' = Inr [''10.0.0.1'', ''10.0.0.2'']"
    unfolding e1 e2 .
  then show ?thesis by (simp add: candidate_list_def)
qed

lemma range_step_small: "0 < n \<Longrightarrow> n \<le> 100 \<Longrightarrow> range_step n 100 = [0]"
proof -
  assume "0 < n" "n \<le> 100"
  then have "(n + 100 - 1) div 100 = 1" by simp
  then show ?thesis by (simp add: range_step_def)
qed


lemmas scan_defs =
  scan_network_def scan_start_def discover_hosts_def enhanced_host_discovery_def find_alive_def
  stop_scanning_def tcp_probe_def tcp_ping_def test_ports_def is_in_network_def
  update_progress_def emit_def
  get_vendor_def get_vendor_ieee_oui_def load_ieee_oui_file_def normalize_mac_def upper_def
  parse_oui_line_def strip_def is_space_def
  resolve_hostnames_def get_hostname_def scan_services_def all_scan_tasks_def
  check_port_def check_port_socket_def lower_def
  enhance_hostname_def get_device_type_hint_def classify_device_def startswith_def
  endswith_def contains_def any_port_def strong_server_indicators_def
  as_completed_def Let_def

lemma not_a_network: "ip_network ''10.0.0.1-2'' = Inl ValueError"
  by (simp add: ip_network_def ip_int_from_string_def parse_octet_def is_digit_def Let_def)

section \<open>A malformed range\<close>

lemma not_an_ip_candidates: "candidate_list ''not-an-ip'' = Inr []"
  by (simp add: candidate_list_def parse_ip_range_def parse_body_def)

lemma not_an_ip_network: "ip_network ''not-an-ip'' = Inl ValueError"
  by (simp add: ip_network_def ip_int_from_string_def Let_def)

lemma arp_collect_no_network:
  "ip_network r = Inl err \<Longrightarrow> arp_collect r xs acc = acc"
  by (induction xs arbitrary: acc) (simp_all add: is_in_network_def)

lemma not_an_ip_discovery:
  "discover_hosts e ''not-an-ip'' s
     = ([], s\<lparr>trace := trace s @ [Progress DiscoveringHosts 10, Progress (PingScanning 0) 15,
                                    Progress CheckingArpTable 26, ArpRead,
                                    Progress TcpPortProbe 28, Progress GettingMacAddresses 32,
                                    Progress (FoundHosts 0) 35]\<rparr>)"
  by (simp add: discover_hosts_def enhanced_host_discovery_def find_alive_def
      not_an_ip_candidates range_step_def arp_collect_no_network [OF not_an_ip_network]
      tcp_probe_def update_progress_def emit_def)

text \<open>
  C1, as the code has it. For \<open>"not-an-ip"\<close> the scan returns the empty result list,
  as a scan that found no host does (its last report is "No hosts found" at 100),
  and hands no ping and no TCP probe to a worker.
\<close>

theorem malformed_range_empty_scan:
  "fst (scan_network e ''not-an-ip'' s) = []
   \<and> filter is_ping_or_tcp_probe (trace (snd (scan_network e ''not-an-ip'' s)))
       = filter is_ping_or_tcp_probe (trace s)
   \<and> last (trace (snd (scan_network e ''not-an-ip'' s))) = Progress NoHostsFound 100"
  by (simp add: scan_network_def scan_start_def not_an_ip_discovery update_progress_def emit_def)

text \<open>
  C1, as the claim has it, fails: the range expander raises nothing for
  \<open>"not-an-ip"\<close> (two dashes match no branch), the scan returns an empty list and no
  error, and the neighbour table is read.
\<close>

theorem malformed_range_counterexample:
  "parse_ip_range ''not-an-ip'' = Inr []
   \<and> scan_network lab_env ''not-an-ip'' new_scanner
       = ([], new_scanner\<lparr>trace :=
                [Progress ScanningForLiveHosts 5, Progress DiscoveringHosts 10,
                 Progress (PingScanning 0) 15, Progress CheckingArpTable 26, ArpRead,
                 Progress TcpPortProbe 28, Progress GettingMacAddresses 32,
                 Progress (FoundHosts 0) 35, Progress NoHostsFound 100]\<rparr>)
   \<and> filter is_liveness_probe (trace (snd (scan_network lab_env ''not-an-ip'' new_scanner)))
       = [ArpRead]"
  by (simp add: scan_network_def scan_start_def not_an_ip_discovery update_progress_def emit_def
      new_scanner_def parse_ip_range_def parse_body_def)

section \<open>Cancellation\<close>

lemma build_hosts_stopped:
  "cancel_at e = Some k \<Longrightarrow> k \<le> stop_checks s \<Longrightarrow> fst (build_hosts e xs hosts s) = hosts"
  by (cases xs) (simp_all add: stop_scanning_def)

text \<open>
  C6, as the code has it. When \<open>stop_scan\<close> was called before discovery starts to
  build its host list (the flag is up at the first read of that loop, or earlier),
  discovery returns no host and the scan ends there like a scan that found nothing:
  empty result, last report "No hosts found" at 100, no port probe handed to a worker.
\<close>

theorem cancel_before_host_list:
  assumes "cancel_at e = Some k" and "k \<le> stop_checks (snd (probing e r s))"
  shows "fst (scan_network e r s) = []
         \<and> filter is_port_probe (trace (snd (scan_network e r s)))
             = filter is_port_probe (trace s)
         \<and> last (trace (snd (scan_network e r s))) = Progress NoHostsFound 100"
proof -
  obtain hosts s1 where d: "discover_hosts e r (scan_start s) = (hosts, s1)"
    by (cases "discover_hosts e r (scan_start s)")
  obtain res sp where p: "probing e r s = (res, sp)" by (cases "probing e r s")
  have k: "k \<le> stop_checks sp" using assms(2) p by simp
  have "hosts = []"
  proof (cases res)
    case (Inl err)
    then show ?thesis
      using d p by (simp add: discover_hosts_def enhanced_host_discovery_def probing_def)
  next
    case (Inr acc)
    have "fst (build_hosts e (fst acc) [] (update_progress GettingMacAddresses 32 sp)) = []"
      using assms(1) k by (intro build_hosts_stopped) simp_all
    then show ?thesis
      using d p Inr
      by (auto simp: discover_hosts_def enhanced_host_discovery_def probing_def
          split: prod.splits)
  qed
  moreover have "filter is_port_probe (trace s1) = filter is_port_probe (trace s)"
    using probes_discover_hosts [OF d] by (simp add: scan_start_def)
  ultimately show ?thesis
    using d by (simp add: scan_network_def)
qed

lemmas lab_eval =
  scan_defs probing_def lab_candidates range_step_small not_a_network
  lab_env_def new_scanner_def http_def ssh_def upt_rec

theorem cancel_before_host_list_witness:
  "cancel_at (lab_env\<lparr>cancel_at := Some 3\<rparr>) = Some 3
   \<and> 3 \<le> stop_checks (snd (probing (lab_env\<lparr>cancel_at := Some 3\<rparr>) ''10.0.0.1-2'' new_scanner))
   \<and> fst (scan_network (lab_env\<lparr>cancel_at := Some 3\<rparr>) ''10.0.0.1-2'' new_scanner) = []
   \<and> filter is_port_probe
        (trace (snd (scan_network (lab_env\<lparr>cancel_at := Some 3\<rparr>) ''10.0.0.1-2'' new_scanner)))
       = []
   \<and> last (trace (snd (scan_network (lab_env\<lparr>cancel_at := Some 3\<rparr>) ''10.0.0.1-2'' new_scanner)))
       = Progress NoHostsFound 100"
proof -
  have h: "stop_checks (snd (probing (lab_env\<lparr>cancel_at := Some 3\<rparr>) ''10.0.0.1-2'' new_scanner)) = 3"
    by (simp add: lab_eval)
  have t: "trace new_scanner = []" by (simp add: new_scanner_def)
  show ?thesis
    using cancel_before_host_list [of "lab_env\<lparr>cancel_at := Some 3\<rparr>" 3 "''10.0.0.1-2''" new_scanner]
    by (simp add: h t)
qed

text \<open>
  C6, as the claim has it, fails. In the sample network \<open>stop_scan\<close> is called while
  discovery builds its host list: the scan's reads 0 to 3 of the flag see it down, read 4
  (the second turn of that loop, still in discovery, which reads the flag five times)
  sees it up. Discovery returns the one host it had appended, and \<open>scan_network\<close> goes
  on: it submits the hostname lookup and both port-probe tasks of that host to their
  pools (a worker that starts a port probe with the flag up returns at once) and ends
  with "Scan completed" at 100 and an empty result.
\<close>

theorem cancel_during_discovery_counterexample:
  "stop_checks (snd (probing (lab_env\<lparr>cancel_at := Some 4\<rparr>) ''10.0.0.1-2'' new_scanner)) = 3
   \<and> stop_checks (snd (discover_hosts (lab_env\<lparr>cancel_at := Some 4\<rparr>) ''10.0.0.1-2''
                         (scan_start new_scanner))) = 5
   \<and> map ip (fst (discover_hosts (lab_env\<lparr>cancel_at := Some 4\<rparr>) ''10.0.0.1-2''
                    (scan_start new_scanner))) = [''10.0.0.2'']
   \<and> fst (scan_network (lab_env\<lparr>cancel_at := Some 4\<rparr>) ''10.0.0.1-2'' new_scanner) = []
   \<and> trace (snd (scan_network (lab_env\<lparr>cancel_at := Some 4\<rparr>) ''10.0.0.1-2'' new_scanner))
       = [Progress ScanningForLiveHosts 5, Progress DiscoveringHosts 10,
          Progress (PingScanning 2) 15, PingProbe ''10.0.0.1'', PingProbe ''10.0.0.2'',
          Progress (PingScan 2 2 2) 25, Progress CheckingArpTable 26, ArpRead,
          Progress TcpPortProbe 28, Progress GettingMacAddresses 32,
          OuiLookup ''00:11:22:33:44:55'', Progress (FoundHosts 1) 35,
          Progress ResolvingHostnames 35, HostnameLookup ''10.0.0.2'',
          Progress ScanningServices 55, Progress (StartingPortScan 2 130) 55,
          PortProbe ''10.0.0.2'' http, PortProbe ''10.0.0.2'' ssh,
          Progress FinalizingResults 85, Progress ScanCompleted 100]"
  by (simp add: lab_eval)

section \<open>Port probes of the later steps\<close>

lemma probes_get_hostname:
  "get_hostname e x s = (r, s1) \<Longrightarrow>
     filter is_port_probe (trace s1) = filter is_port_probe (trace s)"
  by (auto simp: get_hostname_def split: option.splits sum.splits)

lemma probes_submit_hostnames:
  "submit_hostnames e hs s = (rs, s1) \<Longrightarrow>
     filter is_port_probe (trace s1) = filter is_port_probe (trace s)"
proof (induction hs arbitrary: rs s)
  case Nil
  then show ?case by simp
next
  case (Cons h hs)
  then show ?case
    by (auto split: prod.splits dest!: probes_get_hostname)
qed

lemma probes_hostname_collect:
  "hostname_collect e n fs completed hn s = (hn', s1) \<Longrightarrow>
     filter is_port_probe (trace s1) = filter is_port_probe (trace s)"
  by (induction fs arbitrary: completed hn s)
     (auto simp: stop_scanning_def Let_def split: prod.splits if_splits)

lemma probes_resolve_hostnames:
  "resolve_hostnames e hosts s = (r, s1) \<Longrightarrow>
     filter is_port_probe (trace s1) = filter is_port_probe (trace s)"
  by (auto simp: resolve_hostnames_def Let_def split: prod.splits if_splits
      dest!: probes_submit_hostnames probes_hostname_collect)

lemma probes_port_collect:
  "port_collect e n ts completed found s = (found', s1) \<Longrightarrow>
     filter is_port_probe (trace s1) = filter is_port_probe (trace s)"
  by (induction ts arbitrary: completed found s)
     (auto simp: stop_scanning_def Let_def split: prod.splits if_splits)

lemma filter_probe_map_port [simp]:
  "filter is_port_probe (map (\<lambda>t. PortProbe (fst t) (snd t)) ts)
     = map (\<lambda>t. PortProbe (fst t) (snd t)) ts"
  by (induction ts) auto

lemma probes_scan_services:
  "scan_services e hosts s = (r, s1) \<Longrightarrow>
     filter is_port_probe (trace s1)
       = filter is_port_probe (trace s)
         @ (if 0 < thread_count e
            then map (\<lambda>t. PortProbe (fst t) (snd t)) (all_scan_tasks hosts (services_to_scan e))
            else [])"
  by (auto simp: scan_services_def Let_def split: prod.splits if_splits
      dest!: probes_port_collect)

lemma scan_services_outcome:
  "(\<exists>found. fst (scan_services e hosts s) = Inr found) \<longleftrightarrow> 0 < thread_count e"
  by (auto simp: scan_services_def Let_def split: prod.splits)

lemma resolve_hostnames_outcome:
  "hosts \<noteq> [] \<Longrightarrow>
     (\<exists>hn. fst (resolve_hostnames e hosts s) = Inr hn) \<longleftrightarrow> 0 < discovery_threads e"
  by (cases hosts) (auto simp: resolve_hostnames_def Let_def split: prod.splits)

lemma probes_get_device_type_hint:
  "get_device_type_hint e x svcs s = (r, s1) \<Longrightarrow>
     filter is_port_probe (trace s1) = filter is_port_probe (trace s)"
  by (auto simp: get_device_type_hint_def Let_def split: prod.splits sum.splits if_splits
      dest!: probes_get_hostname)

lemma probes_enhance_hostname:
  "enhance_hostname e x hn svcs s = (r, s1) \<Longrightarrow>
     filter is_port_probe (trace s1) = filter is_port_probe (trace s)"
  by (auto simp: enhance_hostname_def split: prod.splits sum.splits if_splits
      dest!: probes_get_device_type_hint)

lemma probes_combine_results:
  "combine_results e hosts hn found results s = (r, s1) \<Longrightarrow>
     filter is_port_probe (trace s1) = filter is_port_probe (trace s)"
proof (induction hosts arbitrary: results s)
  case Nil
  then show ?case by simp
next
  case (Cons h hosts)
  then show ?case
    by (auto simp: stop_scanning_def Let_def split: prod.splits sum.splits if_splits
        dest!: probes_enhance_hostname)
qed

section \<open>The service matrix\<close>

lemma length_all_scan_tasks:
  "length (all_scan_tasks hosts svcs) = length hosts * length svcs"
  by (induction hosts) (simp_all add: all_scan_tasks_def)

lemma set_all_scan_tasks:
  "fst ` set (all_scan_tasks hosts svcs) \<subseteq> ip ` set hosts"
  by (auto simp: all_scan_tasks_def)

lemma dom_port_collect:
  "port_collect e n ts completed found s = (found', s1) \<Longrightarrow> dom found' = dom found"
proof (induction ts arbitrary: completed found s)
  case Nil
  then show ?case by simp
next
  case (Cons t ts)
  show ?case
  proof (cases "fst (stop_scanning e s)")
    case True
    with Cons.prems show ?thesis by (auto split: prod.splits)
  next
    case False
    obtain s' where st: "stop_scanning e s = (False, s')"
      using False by (cases "stop_scanning e s") auto
    let ?found = "(if check_port e False (fst t) (port (snd t)) (protocol (snd t))
                       then (case found (fst t) of
                               None \<Rightarrow> found
                             | Some fs \<Rightarrow> found(fst t \<mapsto> fs @ [snd t]))
                       else found)"
    have d: "dom ?found = dom found"
      by (auto split: option.splits)
    from Cons.prems st obtain c' s'' where
      "port_collect e n ts c' ?found s'' = (found', s1)"
      by (auto simp: Let_def split: if_splits)
    from Cons.IH [OF this] d show ?thesis by simp
  qed
qed

lemma dom_scan_services:
  "scan_services e hosts s = (Inr found, s1) \<Longrightarrow> dom found = ip ` set hosts"
proof -
  assume a: "scan_services e hosts s = (Inr found, s1)"
  have "dom (map_of (map (\<lambda>h. (ip h, [] :: service_info list)) hosts)) = ip ` set hosts"
    by (simp add: dom_map_of_conv_image_fst image_image)
  moreover from a
  have "dom found = dom (map_of (map (\<lambda>h. (ip h, [] :: service_info list)) hosts))"
    apply (clarsimp simp: scan_services_def Let_def split: prod.splits if_splits)
    apply (drule dom_port_collect)
    apply simp
    done
  ultimately show ?thesis by simp
qed

section \<open>The candidates are distinct\<close>

lemma str_nat_inj: "str_nat a = str_nat b \<Longrightarrow> a = b"
proof -
  assume "str_nat a = str_nat b"
  then have "dec_value (str_nat a) = dec_value (str_nat b)" by (rule arg_cong)
  then show "a = b" by (simp only: dec_value_str_nat)
qed

lemma str_int_inj: "str_int i = str_int j \<Longrightarrow> i = j"
proof -
  assume a: "str_int i = str_int j"
  have nd: "CHR ''-'' # xs \<noteq> str_nat n" for xs n
  proof
    assume "CHR ''-'' # xs = str_nat n"
    then have "hd (str_nat n) = CHR ''-''" by (metis list.sel(1))
    with digit_ends_str_nat(1) [of n] is_digit_not_special show False by metis
  qed
  show ?thesis
  proof (cases "i < 0")
    case True
    show ?thesis
    proof (cases "j < 0")
      case True
      with \<open>i < 0\<close> a have "str_nat (nat (- i)) = str_nat (nat (- j))"
        by (simp add: str_int_def)
      then have "nat (- i) = nat (- j)" by (rule str_nat_inj)
      with True \<open>i < 0\<close> show ?thesis by simp
    next
      case False
      with \<open>i < 0\<close> a nd show ?thesis by (simp add: str_int_def)
    qed
  next
    case False
    show ?thesis
    proof (cases "j < 0")
      case True
      with False a nd [of "str_nat (nat (- j))" "nat i"] show ?thesis
        by (simp add: str_int_def)
    next
      case jn: False
      with False a have "str_nat (nat i) = str_nat (nat j)" by (simp add: str_int_def)
      then have "nat i = nat j" by (rule str_nat_inj)
      with False jn show ?thesis by simp
    qed
  qed
qed

lemma octet_arith:
  fixes a :: nat
  assumes "a = 256 * q1 + r0" and "q1 = 256 * q2 + r1" and "q2 = 256 * q3 + r2"
  shows "((q3 * 256 + r2) * 256 + r1) * 256 + r0 = a"
  unfolding assms by (simp add: algebra_simps)

lemma octets_of_value:
  assumes "a < 4294967296"
  shows "ip_value (a div 16777216 mod 256) (a div 65536 mod 256) (a div 256 mod 256) (a mod 256) = a"
proof -
  define q1 q2 q3 where "q1 = a div 256" and "q2 = a div 65536" and "q3 = a div 16777216"
  have e1: "a = 256 * q1 + a mod 256" by (simp add: q1_def)
  have "a div 65536 = a div (256 * 256)" by simp
  then have q2': "q2 = q1 div 256" unfolding q1_def q2_def by (simp only: div_mult2_eq)
  have "a div 16777216 = a div (65536 * 256)" by simp
  then have q3': "q3 = q2 div 256" unfolding q2_def q3_def by (simp only: div_mult2_eq)
  have e2: "q1 = 256 * q2 + q1 mod 256" by (simp add: q2')
  have e3: "q2 = 256 * q3 + q2 mod 256" by (simp add: q3')
  have "a < 256 * 16777216" using assms by simp
  then have "q3 < 256" unfolding q3_def by (rule less_mult_imp_div_less)
  then have e4: "q3 mod 256 = q3" by simp
  have "((q3 * 256 + q2 mod 256) * 256 + q1 mod 256) * 256 + a mod 256 = a"
    using e1 e2 e3 by (rule octet_arith)
  then show ?thesis
    unfolding ip_value_def q1_def [symmetric] q2_def [symmetric] q3_def [symmetric] e4 .
qed

lemma str_ip_dotted:
  "str_ip a = dotted (a div 16777216 mod 256) (a div 65536 mod 256) (a div 256 mod 256) (a mod 256)"
  by (simp add: str_ip_def dotted_def)

lemma ip_int_from_string_str_ip:
  "a < 4294967296 \<Longrightarrow> ip_int_from_string (str_ip a) = Inr a"
proof -
  assume a: "a < 4294967296"
  have le: "x mod 256 \<le> 255" for x :: nat
    using mod_less_divisor [of 256 x] by simp
  have "ip_int_from_string
          (dotted (a div 16777216 mod 256) (a div 65536 mod 256) (a div 256 mod 256) (a mod 256))
        = Inr (ip_value (a div 16777216 mod 256) (a div 65536 mod 256) (a div 256 mod 256)
                 (a mod 256))"
    by (rule ip_int_from_string_dotted) (rule le)+
  then show ?thesis
    by (simp only: str_ip_dotted [symmetric] octets_of_value [OF a])
qed

lemma str_ip_inj:
  "a < 4294967296 \<Longrightarrow> b < 4294967296 \<Longrightarrow> str_ip a = str_ip b \<Longrightarrow> a = b"
proof -
  assume a: "a < 4294967296" and b: "b < 4294967296" and e: "str_ip a = str_ip b"
  from e have "ip_int_from_string (str_ip a) = ip_int_from_string (str_ip b)"
    by (rule arg_cong)
  then have "(Inr a :: error + nat) = Inr b"
    by (simp only: ip_int_from_string_str_ip [OF a] ip_int_from_string_str_ip [OF b])
  then show "a = b" by simp
qed

lemma distinct_map_str_ip:
  assumes "distinct xs" and "\<forall>x \<in> set xs. x < 4294967296"
  shows "distinct (map str_ip xs)"
  using assms by (auto simp: distinct_map inj_on_def intro: str_ip_inj)

lemma parse_octet_bound: "parse_octet x = Inr v \<Longrightarrow> v \<le> 255"
  by (auto simp: parse_octet_def Let_def split: if_splits)

lemma length_four: "length xs = 4 \<Longrightarrow> \<exists>a b c d. xs = [a, b, c, d]"
  by (cases xs; cases "tl xs"; cases "tl (tl xs)"; cases "tl (tl (tl xs))") auto

lemma ip_int_from_string_bound:
  assumes "ip_int_from_string x = Inr v"
  shows "v < 4294967296"
proof -
  from assms have l: "length (split_on CHR ''.'' x) = 4"
    by (auto simp: ip_int_from_string_def Let_def split: if_splits)
  then obtain a b c d where o: "split_on CHR ''.'' x = [a, b, c, d]"
    using length_four by blast
  from assms o have "from_octets 0 [a, b, c, d] = Inr v"
    by (auto simp: ip_int_from_string_def Let_def split: if_splits sum.splits)
  then obtain va vb vc vd where
    p: "parse_octet a = Inr va" "parse_octet b = Inr vb" "parse_octet c = Inr vc"
       "parse_octet d = Inr vd"
    and v: "v = 256 * (256 * (256 * va + vb) + vc) + vd"
    by (auto split: sum.splits)
  from p have "va \<le> 255" "vb \<le> 255" "vc \<le> 255" "vd \<le> 255"
    by (auto dest: parse_octet_bound)
  with v show ?thesis by simp
qed

lemma ip_address_bound: "ip_address x = Inr v \<Longrightarrow> v < 4294967296"
  by (auto simp: ip_address_def split: if_splits sum.splits dest: ip_int_from_string_bound)

lemma prefix_from_ip_int_bound: "prefix_from_ip_int m = Some p \<Longrightarrow> p \<le> 32"
  by (auto simp: prefix_from_ip_int_def Let_def split: if_splits)

lemma make_netmask_bound: "make_netmask arg = Inr p \<Longrightarrow> p \<le> 32"
  by (auto simp: make_netmask_def prefix_from_prefix_string_def prefix_from_ip_string_def
      Let_def split: option.splits sum.splits if_splits dest: prefix_from_ip_int_bound)

lemma network_top:
  fixes packed :: nat
  assumes "packed < 4294967296" and "k \<le> 32"
  shows "packed - packed mod 2 ^ k + (2 ^ k - 1) < 4294967296"
proof -
  have pw: "(4294967296::nat) = 2 ^ (32 - k) * 2 ^ k"
    using assms(2) by (simp add: power_add [symmetric])
  have "packed < 2 ^ (32 - k) * 2 ^ k" using assms(1) pw by simp
  then have "packed div 2 ^ k < 2 ^ (32 - k)" by (rule less_mult_imp_div_less)
  then have "Suc (packed div 2 ^ k) \<le> 2 ^ (32 - k)" by simp
  then have "Suc (packed div 2 ^ k) * 2 ^ k \<le> 2 ^ (32 - k) * 2 ^ k"
    by (rule mult_le_mono1)
  then have "packed div 2 ^ k * 2 ^ k + 2 ^ k \<le> 4294967296"
    using pw by simp
  moreover have "packed - packed mod 2 ^ k = packed div 2 ^ k * 2 ^ k"
    by (rule minus_mod_eq_div_mult)
  moreover have "(1::nat) \<le> 2 ^ k" by simp
  ultimately show ?thesis by linarith
qed

lemma ip_network_bound:
  assumes "ip_network r = Inr net"
  shows "broadcast_address net < 4294967296"
proof -
  from assms obtain packed p where
    pk: "ip_int_from_string (hd (split_on CHR ''/'' r)) = Inr packed"
    and p: "(if length (split_on CHR ''/'' r) > 1
             then make_netmask (split_on CHR ''/'' r ! 1) else Inr 32) = Inr p"
    and net: "net = \<lparr>network_address = packed - packed mod 2 ^ (32 - p), prefixlen = p\<rparr>"
    by (auto simp: ip_network_def Let_def split: if_splits sum.splits)
  from pk have "packed < 4294967296" by (rule ip_int_from_string_bound)
  then show ?thesis
    using network_top [of packed "32 - p"] by (simp add: broadcast_address_def net)
qed

lemma network_hosts_distinct:
  assumes "broadcast_address net < 4294967296"
  shows "distinct (map str_ip (network_hosts net))"
proof (rule distinct_map_str_ip)
  show "distinct (network_hosts net)" by (simp add: network_hosts_def)
  show "\<forall>x \<in> set (network_hosts net). x < 4294967296"
    using assms by (auto simp: network_hosts_def broadcast_address_def)
qed

lemma ip_walk_result:
  "ip_walk c e acc = Inr xs \<Longrightarrow> xs = acc @ map str_ip [c ..< Suc e]"
proof (induction c e acc rule: ip_walk.induct)
  case (1 current end_addr ip_list)
  show ?case
  proof (cases "current \<le> end_addr")
    case True
    with "1.prems" have nl: "\<not> current + 1 \<ge> 4294967296"
      by (subst (asm) ip_walk.simps) (auto split: if_splits)
    with True "1.prems" have
      "ip_walk (current + 1) end_addr (ip_list @ [str_ip current]) = Inr xs"
      by (subst (asm) ip_walk.simps) (auto split: if_splits)
    from "1.IH" [OF True nl this] True show ?thesis
      by (simp add: upt_conv_Cons del: upt_Suc)
  next
    case False
    with "1.prems" show ?thesis
      by (subst (asm) ip_walk.simps) simp
  qed
qed

lemma ip_walk_distinct:
  assumes "ip_walk c e [] = Inr xs" and "e < 4294967296"
  shows "distinct xs"
proof -
  have "xs = map str_ip [c ..< Suc e]" using ip_walk_result [OF assms(1)] by simp
  moreover have "distinct (map str_ip [c ..< Suc e])"
    using assms(2) by (intro distinct_map_str_ip) auto
  ultimately show ?thesis by simp
qed

lemma octet_range_distinct: "distinct (map (\<lambda>i. base @ ''.'' @ str_int i) [a .. b])"
  by (auto simp: distinct_map inj_on_def dest: str_int_inj)

lemma parse_body_distinct:
  assumes "parse_body r = Inr xs"
  shows "distinct xs"
proof (cases "CHR ''/'' \<in> set r")
  case True
  with assms obtain net where n: "ip_network r = Inr net" and x: "xs = map str_ip (network_hosts net)"
    by (auto simp: parse_body_def split: sum.splits)
  from ip_network_bound [OF n] x show ?thesis by (simp add: network_hosts_distinct)
next
  case False
  note ns = this
  show ?thesis
  proof (cases "CHR ''-'' \<in> set r")
    case False
    with ns assms show ?thesis
      by (auto simp: parse_body_def split: sum.splits)
  next
    case True
    show ?thesis
    proof (cases "count_list r CHR ''-'' = 1")
      case False
      with ns True assms show ?thesis by (simp add: parse_body_def)
    next
      case c: True
      define start_ip where "start_ip = strip (split_on CHR ''-'' r ! 0)"
      define end_part where "end_part = strip (split_on CHR ''-'' r ! 1)"
      show ?thesis
      proof (cases "CHR ''.'' \<in> set end_part")
        case False
        with ns True c assms obtain so eo where
          "xs = map (\<lambda>i. join ''.'' (butlast (split_on CHR ''.'' start_ip)) @ ''.'' @ str_int i) [so .. eo]"
          by (auto simp: parse_body_def Let_def start_ip_def end_part_def
              split: sum.splits option.splits)
        then show ?thesis by (simp only: octet_range_distinct)
      next
        case d: True
        with ns True c assms obtain sa ea where
          "ip_address end_part = Inr ea" "ip_walk sa ea [] = Inr xs"
          by (auto simp: parse_body_def Let_def start_ip_def end_part_def
              split: sum.splits option.splits)
        then show ?thesis
          using ip_walk_distinct ip_address_bound by blast
      qed
    qed
  qed
qed

lemma candidate_list_distinct: "candidate_list r = Inr ip_list \<Longrightarrow> distinct ip_list"
  by (auto simp: candidate_list_def parse_ip_range_def split: sum.splits if_splits
      dest: parse_body_distinct)

section \<open>The discovered hosts are distinct\<close>

lemma set_as_completed: "set (as_completed rank xs) = set xs"
proof -
  have m: "map snd (zip [0 ..< length xs] xs) = xs" by (rule map_snd_zip) simp
  have "set (as_completed rank xs) = snd ` set (zip [0 ..< length xs] xs)"
    by (simp add: as_completed_def)
  also have "\<dots> = set (map snd (zip [0 ..< length xs] xs))" by (simp only: set_map)
  also have "\<dots> = set xs" by (simp only: m)
  finally show ?thesis .
qed

lemma length_as_completed: "length (as_completed rank xs) = length xs"
  by (simp add: as_completed_def)

lemma distinct_as_completed: "distinct xs \<Longrightarrow> distinct (as_completed rank xs)"
proof -
  assume "distinct xs"
  then have "card (set xs) = length xs" by (rule distinct_card)
  then have "card (set (as_completed rank xs)) = length (as_completed rank xs)"
    by (simp add: set_as_completed length_as_completed)
  then show ?thesis by (rule card_distinct)
qed

lemma ping_collect_inv:
  assumes "ping_collect e xs acc s = (acc', s')"
      and "distinct xs" and "distinct (fst acc)" and "set (fst acc) \<inter> set xs = {}"
      and "snd acc = set (fst acc)"
  shows "distinct (fst acc') \<and> set (fst acc') \<subseteq> set (fst acc) \<union> set xs
         \<and> snd acc' = set (fst acc')"
  using assms
proof (induction xs arbitrary: acc s)
  case Nil
  then show ?case by simp
next
  case (Cons x xs)
  obtain stop s1 where st: "stop_scanning e s = (stop, s1)" by (cases "stop_scanning e s")
  show ?case
  proof (cases "stop")
    case True
    with Cons.prems st show ?thesis by auto
  next
    case False
    show ?thesis
    proof (cases "ping_reply e x")
      case True
      with Cons.prems(1) st False have
        c: "ping_collect e xs (fst acc @ [x], insert x (snd acc)) s1 = (acc', s')"
        by simp
      have "distinct (fst acc') \<and> set (fst acc') \<subseteq> set (fst (fst acc @ [x], insert x (snd acc))) \<union> set xs
            \<and> snd acc' = set (fst acc')"
        using Cons.prems(2-5) by (intro Cons.IH [OF c]) auto
      then show ?thesis by auto
    next
      case nr: False
      with Cons.prems(1) st False have c: "ping_collect e xs acc s1 = (acc', s')"
        by simp
      have "distinct (fst acc') \<and> set (fst acc') \<subseteq> set (fst acc) \<union> set xs
            \<and> snd acc' = set (fst acc')"
        using Cons.prems(2-5) by (intro Cons.IH [OF c]) auto
      then show ?thesis by auto
    qed
  qed
qed

lemma take_drop_disjoint:
  assumes "distinct xs" and "lo \<le> b"
  shows "set (take lo xs) \<inter> set (take n (drop b xs)) = {}"
proof -
  have "distinct (take b xs @ drop b xs)" using assms(1) by simp
  then have "set (take b xs) \<inter> set (drop b xs) = {}" by (simp only: distinct_append)
  moreover have "set (take lo xs) \<subseteq> set (take b xs)"
    using assms(2) by (rule set_take_subset_set_take)
  moreover have "set (take n (drop b xs)) \<subseteq> set (drop b xs)" by (rule set_take_subset)
  ultimately show ?thesis by blast
qed

lemma take_batch_subset:
  assumes "lo \<le> b"
  shows "set (take lo xs) \<union> set (take 100 (drop b xs)) \<subseteq> set (take (b + 100) xs)"
proof -
  have "take (b + 100) xs = take b xs @ take 100 (drop b xs)" by (rule take_add)
  moreover have "set (take lo xs) \<subseteq> set (take b xs)"
    using assms by (rule set_take_subset_set_take)
  ultimately show ?thesis by auto
qed

lemma ping_batches_inv:
  assumes "distinct ip_list"
      and "ping_batches e ip_list bs acc s = (Inr acc', s')"
      and "distinct (fst acc)" and "snd acc = set (fst acc)"
      and "set (fst acc) \<subseteq> set (take lo ip_list)"
      and "sorted_wrt (\<lambda>b b'. b + 100 \<le> b') bs" and "\<forall>b \<in> set bs. lo \<le> b"
  shows "distinct (fst acc') \<and> snd acc' = set (fst acc')"
  using assms(2-7)
proof (induction bs arbitrary: acc s lo)
  case Nil
  then show ?case by simp
next
  case (Cons b bs)
  obtain stop s1 where st: "stop_scanning e s = (stop, s1)" by (cases "stop_scanning e s")
  show ?case
  proof (cases stop)
    case True
    with Cons.prems st show ?thesis by auto
  next
    case False
    let ?batch = "take 100 (drop b ip_list)"
    let ?s2 = "s1\<lparr>trace := trace s1 @ map PingProbe ?batch\<rparr>"
    obtain acc1 s3 where
      pc: "ping_collect e (as_completed (ping_order e b) ?batch) acc ?s2 = (acc1, s3)"
      by (cases "ping_collect e (as_completed (ping_order e b) ?batch) acc ?s2")
    from Cons.prems(1) st False pc obtain s4 where
      rec: "ping_batches e ip_list bs acc1 s4 = (Inr acc', s')"
      by (auto simp: Let_def split: if_splits)
    have lo: "lo \<le> b" using Cons.prems(6) by simp
    have dj: "set (fst acc) \<inter> set (as_completed (ping_order e b) ?batch) = {}"
      using take_drop_disjoint [OF assms(1) lo, of 100] Cons.prems(4)
      by (auto simp: set_as_completed)
    have db: "distinct (as_completed (ping_order e b) ?batch)"
      using assms(1) by (intro distinct_as_completed) simp
    from ping_collect_inv [OF pc db Cons.prems(2) dj Cons.prems(3)]
    have i1: "distinct (fst acc1)" "snd acc1 = set (fst acc1)"
      and sub: "set (fst acc1) \<subseteq> set (fst acc) \<union> set ?batch"
      by (simp_all add: set_as_completed)
    have sub2: "set (fst acc1) \<subseteq> set (take (b + 100) ip_list)"
      using sub Cons.prems(4) take_batch_subset [OF lo, of ip_list] by blast
    have so: "sorted_wrt (\<lambda>b b'. b + 100 \<le> b') bs" using Cons.prems(5) by simp
    have lb: "\<forall>b' \<in> set bs. b + 100 \<le> b'" using Cons.prems(5) by simp
    from Cons.IH [OF rec i1 sub2 so lb] show ?thesis .
  qed
qed

lemma range_step_sorted: "sorted_wrt (\<lambda>b b'. b + 100 \<le> b') (range_step n 100)"
proof -
  have "sorted_wrt (\<lambda>x y. x * 100 + 100 \<le> y * 100) [0 ..< (n + 100 - 1) div 100]"
    by (rule sorted_wrt_mono_rel [OF _ sorted_wrt_upt]) auto
  then show ?thesis by (simp add: range_step_def sorted_wrt_map)
qed

lemma arp_collect_inv:
  assumes "distinct (fst acc)" and "snd acc = set (fst acc)"
  shows "distinct (fst (arp_collect r xs acc))
         \<and> snd (arp_collect r xs acc) = set (fst (arp_collect r xs acc))"
  using assms by (induction xs arbitrary: acc) auto

lemma tcp_collect_inv:
  assumes "distinct (fst (fst st))" and "snd (fst st) = set (fst (fst st))"
  shows "distinct (fst (fst (tcp_collect e fs st s)))
         \<and> snd (fst (tcp_collect e fs st s)) = set (fst (fst (tcp_collect e fs st s)))"
  using assms
proof (induction fs arbitrary: st s)
  case Nil
  then show ?case by simp
next
  case (Cons f fs)
  obtain stop s1 where c: "stop_scanning e s = (stop, s1)" by (cases "stop_scanning e s")
  show ?case
  proof (cases "\<not> stop \<and> tcp_ping e (fst f) (snd f) \<and> fst f \<notin> snd (fst st) \<and> fst f \<notin> snd st")
    case True
    let ?st = "((fst (fst st) @ [fst f], insert (fst f) (snd (fst st))), insert (fst f) (snd st))"
    have "distinct (fst (fst ?st))" "snd (fst ?st) = set (fst (fst ?st))"
      using Cons.prems True by auto
    from Cons.IH [OF this, of s1] True c show ?thesis by simp
  next
    case False
    from Cons.IH [OF Cons.prems, of s1] Cons.prems False c show ?thesis by auto
  qed
qed

lemma tcp_probe_inv:
  assumes "distinct (fst acc)" and "snd acc = set (fst acc)"
  shows "distinct (fst (fst (tcp_probe e ip_list acc s)))"
  using assms tcp_collect_inv [of "(acc, {})" e _ _]
  by (simp add: tcp_probe_def Let_def)

lemma find_alive_distinct:
  assumes "find_alive e r s = (Inr alive, s')"
  shows "distinct (fst alive)"
proof -
  from assms obtain ip_list where cl: "candidate_list r = Inr ip_list"
    by (auto simp: find_alive_def split: sum.splits)
  let ?s0 = "update_progress (PingScanning (length ip_list)) 15 s"
  obtain rp sp where p: "ping_batches e ip_list (range_step (length ip_list) 100) ([], {}) ?s0 = (rp, sp)"
    by (cases "ping_batches e ip_list (range_step (length ip_list) 100) ([], {}) ?s0")
  from assms cl p obtain acc where rp: "rp = Inr acc"
    by (cases rp) (auto simp: find_alive_def)
  have "distinct (fst acc) \<and> snd acc = set (fst acc)"
    using ping_batches_inv [OF candidate_list_distinct [OF cl] p [unfolded rp], of 0]
      range_step_sorted by simp
  then have a: "distinct (fst (arp_collect r (map fst (arp_table e)) acc))"
    "snd (arp_collect r (map fst (arp_table e)) acc)
       = set (fst (arp_collect r (map fst (arp_table e)) acc))"
    using arp_collect_inv by blast+
  let ?s2 = "update_progress TcpPortProbe 28 (emit ArpRead (update_progress CheckingArpTable 26 sp))"
  have "alive = fst (tcp_probe e ip_list (arp_collect r (map fst (arp_table e)) acc) ?s2)"
    using assms cl p rp by (auto simp: find_alive_def Let_def split: prod.splits)
  then show ?thesis using tcp_probe_inv [OF a] by simp
qed

lemma build_hosts_prefix:
  "\<exists>k. map ip (fst (build_hosts e xs hosts s)) = map ip hosts @ take k xs"
proof (induction xs arbitrary: hosts s)
  case Nil
  show ?case by simp
next
  case (Cons x xs)
  obtain stop s1 where c: "stop_scanning e s = (stop, s1)" by (cases "stop_scanning e s")
  show ?case
  proof (cases stop)
    case True
    with c have "map ip (fst (build_hosts e (x # xs) hosts s)) = map ip hosts @ take 0 (x # xs)"
      by simp
    then show ?thesis by blast
  next
    case False
    let ?m = "case map_of (arp_table e) x of None \<Rightarrow> [] | Some a \<Rightarrow> a"
    obtain v s2 where g: "(if ?m \<noteq> [] then get_vendor e ?m s1 else (''Unknown'', s1)) = (v, s2)"
      by (cases "if ?m \<noteq> [] then get_vendor e ?m s1 else (''Unknown'', s1)")
    from Cons [of "hosts @ [\<lparr>ip = x, mac = ?m, vendor = v\<rparr>]" s2] obtain k where
      k: "map ip (fst (build_hosts e xs (hosts @ [\<lparr>ip = x, mac = ?m, vendor = v\<rparr>]) s2))
         = map ip (hosts @ [\<lparr>ip = x, mac = ?m, vendor = v\<rparr>]) @ take k xs"
      by blast
    have "build_hosts e (x # xs) hosts s
            = build_hosts e xs (hosts @ [\<lparr>ip = x, mac = ?m, vendor = v\<rparr>]) s2"
      using c False by (simp add: Let_def g)
    with k have "map ip (fst (build_hosts e (x # xs) hosts s)) = map ip hosts @ take (Suc k) (x # xs)"
      by simp
    then show ?thesis by blast
  qed
qed

lemma discover_hosts_distinct: "distinct (map ip (fst (discover_hosts e r s)))"
proof -
  let ?s0 = "update_progress DiscoveringHosts 10 s"
  obtain res sp where f: "find_alive e r ?s0 = (res, sp)" by (cases "find_alive e r ?s0")
  show ?thesis
  proof (cases res)
    case (Inl err)
    with f show ?thesis by (simp add: discover_hosts_def enhanced_host_discovery_def)
  next
    case (Inr alive)
    from find_alive_distinct [OF f [unfolded Inr]] have d: "distinct (fst alive)" .
    obtain k where
      "map ip (fst (build_hosts e (fst alive) [] (update_progress GettingMacAddresses 32 sp)))
         = take k (fst alive)"
      using build_hosts_prefix [of e "fst alive" "[]"] by auto
    moreover have "distinct (take k (fst alive))" using d by simp
    ultimately show ?thesis
      using f Inr
      by (auto simp: discover_hosts_def enhanced_host_discovery_def split: prod.splits)
  qed
qed

section \<open>Failures\<close>




text \<open>
  C3. The tasks generated are the product of the host list and the catalogue,
  \<open>|hosts| \<times> |services|\<close> of them, each for an address of the host list; the
  hosts have pairwise different addresses, so \<open>|hosts|\<close> counts the alive addresses.
  A scan hands exactly these tasks to the port-scan pool (none when no host was found
  or a pool cannot be made), and the service map of step 3 has the addresses of the
  host list as its keys.
\<close>

theorem service_probe_matrix:
  assumes "discover_hosts e r (scan_start s) = (hosts, s1)"
  shows "length (all_scan_tasks hosts (services_to_scan e))
           = card (ip ` set hosts) * length (services_to_scan e)
         \<and> card (ip ` set hosts) = length hosts
         \<and> fst ` set (all_scan_tasks hosts (services_to_scan e)) \<subseteq> ip ` set hosts
         \<and> filter is_port_probe (trace (snd (scan_network e r s)))
             = filter is_port_probe (trace s)
               @ (if hosts \<noteq> [] \<and> 0 < discovery_threads e \<and> 0 < thread_count e
                  then map (\<lambda>t. PortProbe (fst t) (snd t))
                         (all_scan_tasks hosts (services_to_scan e))
                  else [])
         \<and> (\<forall>s2 found s3. scan_services e hosts s2 = (Inr found, s3)
               \<longrightarrow> dom found = ip ` set hosts)"
proof -
  have d: "filter is_port_probe (trace s1) = filter is_port_probe (trace s)"
    using probes_discover_hosts [OF assms] by (simp add: scan_start_def)
  have "filter is_port_probe (trace (snd (scan_network e r s)))
             = filter is_port_probe (trace s)
               @ (if hosts \<noteq> [] \<and> 0 < discovery_threads e \<and> 0 < thread_count e
                  then map (\<lambda>t. PortProbe (fst t) (snd t))
                         (all_scan_tasks hosts (services_to_scan e))
                  else [])"
  proof (cases "hosts = []")
    case True
    then show ?thesis using assms d by (simp add: scan_network_def)
  next
    case False
    obtain rh s2 where h: "resolve_hostnames e hosts s1 = (rh, s2)"
      by (cases "resolve_hostnames e hosts s1")
    have ph: "filter is_port_probe (trace s2) = filter is_port_probe (trace s)"
      using probes_resolve_hostnames [OF h] d by simp
    show ?thesis
    proof (cases rh)
      case (Inl err)
      then have "\<not> 0 < discovery_threads e"
        using resolve_hostnames_outcome [OF False, of e s1] h by auto
      then show ?thesis using assms False h Inl ph by (simp add: scan_network_def)
    next
      case (Inr hn)
      then have dt: "0 < discovery_threads e"
        using resolve_hostnames_outcome [OF False, of e s1] h by auto
      obtain rs s3 where p: "scan_services e hosts s2 = (rs, s3)"
        by (cases "scan_services e hosts s2")
      note pp = probes_scan_services [OF p]
      show ?thesis
      proof (cases rs)
        case (Inl err)
        then have "\<not> 0 < thread_count e"
          using scan_services_outcome [of e hosts s2] p by auto
        then show ?thesis
          using assms False h Inr p Inl pp ph by (simp add: scan_network_def)
      next
        case (Inr found)
        then have tc: "0 < thread_count e"
          using scan_services_outcome [of e hosts s2] p by auto
        obtain rc s4 where c: "combine_results e hosts hn found []
                                 (update_progress FinalizingResults 85 s3) = (rc, s4)"
          by (cases "combine_results e hosts hn found [] (update_progress FinalizingResults 85 s3)")
        have "filter is_port_probe (trace s4) = filter is_port_probe (trace s3)"
          using probes_combine_results [OF c] by simp
        then show ?thesis
          using assms False h \<open>rh = Inr hn\<close> p Inr pp ph dt tc c
          by (cases rc) (auto simp: scan_network_def split: option.splits)
      qed
    qed
  qed
  moreover have "\<forall>s2 found s3. scan_services e hosts s2 = (Inr found, s3)
               \<longrightarrow> dom found = ip ` set hosts"
    by (intro allI impI) (erule dom_scan_services)
  moreover have c: "card (ip ` set hosts) = length hosts"
    using discover_hosts_distinct [of e r "scan_start s"] distinct_card [of "map ip hosts"]
    by (simp add: assms)
  ultimately show ?thesis
    by (simp only: length_all_scan_tasks set_all_scan_tasks simp_thms)
qed

theorem service_probe_matrix_witness:
  "length (all_scan_tasks (fst (discover_hosts lab_env ''10.0.0.1-2'' (scan_start new_scanner)))
             (services_to_scan lab_env)) = 2 * 2
   \<and> card (ip ` set (fst (discover_hosts lab_env ''10.0.0.1-2'' (scan_start new_scanner)))) = 2
   \<and> filter is_port_probe (trace (snd (scan_network lab_env ''10.0.0.1-2'' new_scanner)))
       = [PortProbe ''10.0.0.2'' http, PortProbe ''10.0.0.2'' ssh,
          PortProbe ''10.0.0.1'' http, PortProbe ''10.0.0.1'' ssh]
   \<and> dom (projr (fst (scan_services lab_env
                        (fst (discover_hosts lab_env ''10.0.0.1-2'' (scan_start new_scanner)))
                        new_scanner)))
       = {''10.0.0.2'', ''10.0.0.1''}"
proof -
  let ?d = "discover_hosts lab_env ''10.0.0.1-2'' (scan_start new_scanner)"
  have d: "?d = (fst ?d, snd ?d)" by simp
  have ips: "map ip (fst ?d) = [''10.0.0.2'', ''10.0.0.1'']" by (simp add: lab_eval)
  have len: "length (fst ?d) = 2" using arg_cong [OF ips, of length] by simp
  have img: "ip ` set (fst ?d) = {''10.0.0.2'', ''10.0.0.1''}"
    using arg_cong [OF ips, of set] by simp
  from len have ne: "fst ?d \<noteq> []" by auto
  have tr: "trace new_scanner = []" "services_to_scan lab_env = [http, ssh]"
    "0 < discovery_threads lab_env" "0 < thread_count lab_env"
    by (simp_all add: new_scanner_def lab_env_def)
  obtain found where f: "fst (scan_services lab_env (fst ?d) new_scanner) = Inr found"
    using scan_services_outcome [of lab_env "fst ?d" new_scanner] tr(4) by blast
  then have p: "scan_services lab_env (fst ?d) new_scanner
                  = (Inr found, snd (scan_services lab_env (fst ?d) new_scanner))"
    by (cases "scan_services lab_env (fst ?d) new_scanner") simp
  have tasks: "map (\<lambda>t. PortProbe (fst t) (snd t)) (all_scan_tasks (fst ?d) [http, ssh])
      = [PortProbe ''10.0.0.2'' http, PortProbe ''10.0.0.2'' ssh,
          PortProbe ''10.0.0.1'' http, PortProbe ''10.0.0.1'' ssh]"
    using ips by (cases "fst ?d"; cases "tl (fst ?d)") (auto simp: all_scan_tasks_def)
  note m = service_probe_matrix [OF d]
  have 1: "length (all_scan_tasks (fst ?d) (services_to_scan lab_env)) = 2 * 2"
    using m len tr(2) by simp
  have 0: "card (ip ` set (fst ?d)) = 2"
    using m len by simp
  have 2: "filter is_port_probe (trace (snd (scan_network lab_env ''10.0.0.1-2'' new_scanner)))
       = [PortProbe ''10.0.0.2'' http, PortProbe ''10.0.0.2'' ssh,
          PortProbe ''10.0.0.1'' http, PortProbe ''10.0.0.1'' ssh]"
    using m ne tr tasks by simp
  have "dom found = ip ` set (fst ?d)"
    using m p by blast
  then have 3: "dom (projr (fst (scan_services lab_env (fst ?d) new_scanner)))
       = {''10.0.0.2'', ''10.0.0.1''}"
    using f img by simp
  show ?thesis using 0 1 2 3 by blast
qed

section \<open>A scan that runs to its end\<close>



lemma discover_hosts_failed:
  assumes "probing e r s = (Inl err, sp)"
  shows "fst (discover_hosts e r (scan_start s)) = []"
  using assms
  by (simp add: discover_hosts_def enhanced_host_discovery_def probing_def)

lemma combine_results_no_cancel:
  assumes "cancel_at e = None"
      and "combine_results e hosts hn found results s = ((None, results'), s')"
  shows "map summary results' = map summary results @ map (assembled found) hosts"
  using assms(2)
proof (induction hosts arbitrary: results s)
  case Nil
  then show ?case by simp
next
  case (Cons h hosts)
  from Cons.prems assms(1) obtain hn' s2 where
    c: "combine_results e hosts hn found
          (results @ [\<lparr>ip = ip h, mac = mac h, vendor = vendor h, hostname = hn',
                       services = (case found (ip h) of None \<Rightarrow> [] | Some fs \<Rightarrow> fs),
                       response_time = 0, is_alive = True\<rparr>]) s2 = ((None, results'), s')"
    by (auto simp: stop_scanning_def Let_def split: prod.splits sum.splits)
  from Cons.IH [OF c] show ?case
    by (simp add: summary_def assembled_def)
qed

lemma scan_network_completed:
  assumes "discover_hosts e r (scan_start s) = (hosts, s1)"
      and "last (trace (snd (scan_network e r s))) = Progress ScanCompleted 100"
  shows "\<exists>hn s2 found s3 s4.
           hosts \<noteq> []
         \<and> resolve_hostnames e hosts s1 = (Inr hn, s2)
         \<and> scan_services e hosts s2 = (Inr found, s3)
         \<and> combine_results e hosts hn found [] (update_progress FinalizingResults 85 s3)
             = ((None, fst (scan_network e r s)), s4)"
  using assms
  by (auto simp: scan_network_def split: prod.splits sum.splits option.splits if_splits)

lemma scan_network_no_hosts:
  assumes "discover_hosts e r (scan_start s) = (hosts, s1)"
      and "last (trace (snd (scan_network e r s))) = Progress NoHostsFound 100"
  shows "hosts = [] \<and> fst (scan_network e r s) = []"
  using assms
  by (auto simp: scan_network_def split: prod.splits sum.splits option.splits if_splits)

lemma completed_results:
  assumes "cancel_at e = None"
      and "discover_hosts e r (scan_start s) = (hosts, s1)"
      and "last (trace (snd (scan_network e r s))) = Progress ScanCompleted 100
           \<or> last (trace (snd (scan_network e r s))) = Progress NoHostsFound 100"
  shows "\<exists>found. map summary (fst (scan_network e r s)) = map (assembled found) hosts"
  using assms(3)
proof
  assume "last (trace (snd (scan_network e r s))) = Progress ScanCompleted 100"
  from scan_network_completed [OF assms(2) this] obtain hn s2 found s3 s4 where
    "combine_results e hosts hn found [] (update_progress FinalizingResults 85 s3)
             = ((None, fst (scan_network e r s)), s4)"
    by blast
  from combine_results_no_cancel [OF assms(1) this] show ?thesis by auto
next
  assume "last (trace (snd (scan_network e r s))) = Progress NoHostsFound 100"
  from scan_network_no_hosts [OF assms(2) this] show ?thesis by simp
qed

lemma map_ip_summary: "map ip rs = map fst (map summary rs)"
  by (simp add: summary_def)

lemma map_ip_assembled: "map fst (map (assembled found) hs) = map ip hs"
  by (simp add: assembled_def)

text \<open>
  C4. A scan that is not cancelled and ends without error (its last report is
  "Scan completed", or "No hosts found" when discovery found none) returns one
  \<open>ScanResult\<close> per host of the discovered list, in its order, with the host's
  address, MAC and vendor, marked alive, and with the services found for it: the empty
  list when none was found. No address stands twice in the result.
\<close>

theorem one_result_per_alive_host:
  assumes "cancel_at e = None"
      and "discover_hosts e r (scan_start s) = (hosts, s1)"
      and "last (trace (snd (scan_network e r s))) = Progress ScanCompleted 100
           \<or> last (trace (snd (scan_network e r s))) = Progress NoHostsFound 100"
  shows "length (fst (scan_network e r s)) = length hosts
         \<and> map ip (fst (scan_network e r s)) = map ip hosts
         \<and> distinct (map ip (fst (scan_network e r s)))
         \<and> list_all is_alive (fst (scan_network e r s))
         \<and> (\<exists>found. map (\<lambda>res. (ip res, mac res, vendor res, services res))
                       (fst (scan_network e r s))
                     = map (\<lambda>h. (ip h, mac h, vendor h,
                                  (case found (ip h) of None \<Rightarrow> [] | Some fs \<Rightarrow> fs))) hosts)"
proof -
  from completed_results [OF assms] obtain found where
    f: "map summary (fst (scan_network e r s)) = map (assembled found) hosts"
    by blast
  have 1: "length (fst (scan_network e r s)) = length hosts"
    using arg_cong [OF f, of length] by simp
  have 2: "map ip (fst (scan_network e r s)) = map ip hosts"
    using arg_cong [OF f, of "map fst"]
    by (simp add: summary_def assembled_def o_def)
  have "map (\<lambda>t. snd (snd (snd (snd t)))) (map summary (fst (scan_network e r s)))
          = map (\<lambda>h. True) hosts"
    unfolding f by (simp add: assembled_def o_def)
  then have "map is_alive (fst (scan_network e r s)) = map (\<lambda>h. True) hosts"
    by (simp add: summary_def o_def)
  then have "\<forall>b \<in> set (map is_alive (fst (scan_network e r s))). b"
    by simp
  then have 3: "list_all is_alive (fst (scan_network e r s))"
    by (simp add: list_all_iff)
  have 4: "map (\<lambda>res. (ip res, mac res, vendor res, services res)) (fst (scan_network e r s))
             = map (\<lambda>h. (ip h, mac h, vendor h,
                          (case found (ip h) of None \<Rightarrow> [] | Some fs \<Rightarrow> fs))) hosts"
    using arg_cong [OF f, of "map (\<lambda>t. (fst t, fst (snd t), fst (snd (snd t)), fst (snd (snd (snd t)))))"]
    by (simp add: summary_def assembled_def o_def)
  have 5: "distinct (map ip (fst (scan_network e r s)))"
    using discover_hosts_distinct [of e r "scan_start s"] by (simp add: assms(2) 2)
  from 1 2 3 4 5 show ?thesis by blast
qed

theorem one_result_per_alive_host_witness:
  "cancel_at lab_env = None
   \<and> last (trace (snd (scan_network lab_env ''10.0.0.1-2'' new_scanner))) = Progress ScanCompleted 100
   \<and> map ip (fst (discover_hosts lab_env ''10.0.0.1-2'' (scan_start new_scanner)))
       = [''10.0.0.2'', ''10.0.0.1'']
   \<and> length (fst (scan_network lab_env ''10.0.0.1-2'' new_scanner)) = 2
   \<and> map (\<lambda>res. (ip res, hostname res, services res, is_alive res))
        (fst (scan_network lab_env ''10.0.0.1-2'' new_scanner))
       = [(''10.0.0.2'', ''10.0.0.2'', [], True), (''10.0.0.1'', ''alpha'', [http], True)]"
proof -
  let ?d = "discover_hosts lab_env ''10.0.0.1-2'' (scan_start new_scanner)"
  have d: "?d = (fst ?d, snd ?d)" by simp
  have c: "cancel_at lab_env = None" by (simp add: lab_env_def)
  have l: "last (trace (snd (scan_network lab_env ''10.0.0.1-2'' new_scanner)))
             = Progress ScanCompleted 100"
    by (simp add: lab_eval)
  have ips: "map ip (fst ?d) = [''10.0.0.2'', ''10.0.0.1'']" by (simp add: lab_eval)
  have r: "map (\<lambda>res. (ip res, hostname res, services res, is_alive res))
        (fst (scan_network lab_env ''10.0.0.1-2'' new_scanner))
       = [(''10.0.0.2'', ''10.0.0.2'', [], True), (''10.0.0.1'', ''alpha'', [http], True)]"
    by (simp add: lab_eval)
  have "length (fst ?d) = 2" using arg_cong [OF ips, of length] by simp
  with one_result_per_alive_host [OF c d disjI1 [OF l]]
  have "length (fst (scan_network lab_env ''10.0.0.1-2'' new_scanner)) = 2"
    by simp
  with c l ips r show ?thesis by blast
qed

section \<open>The order of the results\<close>











end
